theory Spec2Isabelle
  imports Complex_Main "HOL-Library.Product_Lexorder"
begin

section \<open>Data model\<close>

text \<open>
  A cell is a pair of Python integers \<open>(row, col)\<close>; a grid is a list of rows of
  one-character tile symbols. Python's exceptions are values of \<open>error\<close>.
\<close>

type_synonym cell = "int \<times> int"
type_synonym grid = "char list list"

datatype error = IndexError | KeyError | ValueError

definition TILE_NORMAL :: char where "TILE_NORMAL = CHR ''.''"
definition TILE_WALL :: char where "TILE_WALL = CHR ''#''"
definition TILE_MUD :: char where "TILE_MUD = CHR ''~''"

text \<open>\<open>COSTS.get(t, 1)\<close> with \<open>COSTS = {TILE_NORMAL: 1, TILE_MUD: 3}\<close>.\<close>

definition COSTS_get :: "char \<Rightarrow> int" where
  "COSTS_get t = (if t = TILE_NORMAL then 1 else if t = TILE_MUD then 3 else 1)"

definition manhattan :: "cell \<Rightarrow> cell \<Rightarrow> int" where
  "manhattan a b = \<bar>fst a - fst b\<bar> + \<bar>snd a - snd b\<bar>"

text \<open>Python list indexing: a negative index counts from the end, anything else out of
  range raises IndexError.\<close>

definition py_index :: "'a list \<Rightarrow> int \<Rightarrow> error + 'a" where
  "py_index xs i =
     (if 0 \<le> i \<and> i < int (length xs) then Inr (xs ! nat i)
      else if i < 0 \<and> - int (length xs) \<le> i then Inr (xs ! nat (int (length xs) + i))
      else Inl IndexError)"

text \<open>\<open>grid[r][c]\<close>\<close>

definition grid_get :: "grid \<Rightarrow> cell \<Rightarrow> error + char" where
  "grid_get grid p =
     (case py_index grid (fst p) of
        Inl e \<Rightarrow> Inl e
      | Inr row \<Rightarrow> py_index row (snd p))"

text \<open>\<open>rows = len(grid); cols = len(grid[0])\<close>\<close>

definition grid_dims :: "grid \<Rightarrow> error + (int \<times> int)" where
  "grid_dims grid =
     (case py_index grid 0 of
        Inl e \<Rightarrow> Inl e
      | Inr row0 \<Rightarrow> Inr (int (length grid), int (length row0)))"

section \<open>The A* solver\<close>

text \<open>
  An entry of the open heap is the tuple \<open>(f, g, cell)\<close>; Python compares tuples
  lexicographically, which is the order of products used here. \<open>heapq\<close> keeps a binary
  heap in a list; since the entries are totally ordered and equal entries are the same
  value, what \<open>heappop\<close> returns is determined by the multiset of entries alone: the least
  entry. The heap is therefore a list of entries, \<open>heappush\<close> appends and \<open>heappop\<close>
  takes one occurrence of the least entry out.
\<close>

type_synonym entry = "int \<times> int \<times> cell"

definition heappush :: "entry list \<Rightarrow> entry \<Rightarrow> entry list" where
  "heappush h x = h @ [x]"

definition heappop :: "entry list \<Rightarrow> entry \<times> entry list" where
  "heappop h = (let m = Min (set h) in (m, remove1 m h))"

text \<open>One recorded expansion step: current cell, open set, closed set, copy of \<open>g\<close>.\<close>

record snapshot =
  snap_current :: cell
  snap_open :: "cell set"
  snap_closed :: "cell set"
  snap_g :: "cell \<rightharpoonup> int"

record astate =
  g_score :: "cell \<rightharpoonup> int"
  parent :: "cell \<rightharpoonup> cell"
  open_heap :: "entry list"
  open_set :: "cell set"
  closed_set :: "cell set"
  steps :: "snapshot list"

record result =
  res_path :: "cell list"
  res_expanded :: nat
  res_steps :: "snapshot list"

definition DIRS :: "(int \<times> int) list" where
  "DIRS = [(1, 0), (-1, 0), (0, 1), (0, -1)]"

text \<open>The body of the loop over the four directions, for one direction \<open>d\<close>.\<close>

definition relax :: "grid \<Rightarrow> int \<Rightarrow> int \<Rightarrow> cell \<Rightarrow> cell \<Rightarrow> int \<times> int \<Rightarrow> astate \<Rightarrow> error + astate" where
  "relax grid rows cols goal current d s =
     (let nr = fst current + fst d; nc = snd current + snd d in
      if \<not> (0 \<le> nr \<and> nr < rows \<and> 0 \<le> nc \<and> nc < cols) then Inr s
      else
        (case grid_get grid (nr, nc) of
           Inl e \<Rightarrow> Inl e
         | Inr t \<Rightarrow>
             if t = TILE_WALL then Inr s
             else
               (case g_score s current of
                  None \<Rightarrow> Inl KeyError
                | Some gc \<Rightarrow>
                    let neighbor = (nr, nc); tentative_g = gc + COSTS_get t in
                    if (case g_score s neighbor of None \<Rightarrow> True | Some gn \<Rightarrow> tentative_g < gn)
                    then Inr (s\<lparr>g_score := (g_score s)(neighbor \<mapsto> tentative_g),
                                parent := (parent s)(neighbor \<mapsto> current),
                                open_heap := heappush (open_heap s)
                                   (tentative_g + manhattan neighbor goal, tentative_g, neighbor),
                                open_set := insert neighbor (open_set s)\<rparr>)
                    else Inr s)))"

fun relax_all :: "grid \<Rightarrow> int \<Rightarrow> int \<Rightarrow> cell \<Rightarrow> cell \<Rightarrow> (int \<times> int) list \<Rightarrow> astate \<Rightarrow> error + astate" where
  "relax_all grid rows cols goal current [] s = Inr s"
| "relax_all grid rows cols goal current (d # ds) s =
     (case relax grid rows cols goal current d s of
        Inl e \<Rightarrow> Inl e
      | Inr s' \<Rightarrow> relax_all grid rows cols goal current ds s')"

text \<open>The path reconstruction loop \<open>while cur != start: path.append(cur); cur = parent[cur]\<close>,
  followed by \<open>path.append(start); path.reverse()\<close>. On a parent map with a cycle the
  loop does not return: the value is \<open>None\<close>.\<close>

partial_function (option) reconstruct :: "(cell \<rightharpoonup> cell) \<Rightarrow> cell \<Rightarrow> cell \<Rightarrow> cell list \<Rightarrow> (error + cell list) option" where
  "reconstruct par start cur path =
     (if cur \<noteq> start then
        (case par cur of
           None \<Rightarrow> Some (Inl KeyError)
         | Some p \<Rightarrow> reconstruct par start p (path @ [cur]))
      else Some (Inr (rev (path @ [start]))))"

text \<open>The main loop \<open>while open_heap: ...\<close>. The result is \<open>None\<close> when the loop does not
  return, \<open>Some (Inl e)\<close> when it raises, \<open>Some (Inr None)\<close> for Python's \<open>None\<close> (no path)
  and \<open>Some (Inr (Some r))\<close> for the result dictionary.\<close>

partial_function (option) astar_loop :: "grid \<Rightarrow> int \<Rightarrow> int \<Rightarrow> cell \<Rightarrow> cell \<Rightarrow> bool \<Rightarrow> astate \<Rightarrow> (error + result option) option" where
  "astar_loop grid rows cols start goal record_steps s =
     (if open_heap s = [] then Some (Inr None)
      else
        let popped = heappop (open_heap s);
            current = snd (snd (fst popped));
            s1 = s\<lparr>open_heap := snd popped\<rparr>
        in
        if current \<in> closed_set s1 then astar_loop grid rows cols start goal record_steps s1
        else
          let s2 = s1\<lparr>open_set := open_set s1 - {current},
                      closed_set := insert current (closed_set s1)\<rparr>;
              s3 = (if record_steps
                    then s2\<lparr>steps := steps s2 @
                           [\<lparr>snap_current = current, snap_open = open_set s2,
                             snap_closed = closed_set s2, snap_g = g_score s2\<rparr>]\<rparr>
                    else s2)
          in
          if current = goal then
            (case reconstruct (parent s3) start current [] of
               None \<Rightarrow> None
             | Some (Inl e) \<Rightarrow> Some (Inl e)
             | Some (Inr path) \<Rightarrow>
                 Some (Inr (Some \<lparr>res_path = path, res_expanded = card (closed_set s3),
                                  res_steps = steps s3\<rparr>)))
          else
            (case relax_all grid rows cols goal current DIRS s3 of
               Inl e \<Rightarrow> Some (Inl e)
             | Inr s4 \<Rightarrow> astar_loop grid rows cols start goal record_steps s4))"

definition astar_init :: "cell \<Rightarrow> cell \<Rightarrow> astate" where
  "astar_init start goal =
     \<lparr>g_score = [start \<mapsto> 0], parent = Map.empty,
      open_heap = heappush [] (manhattan start goal, 0, start),
      open_set = {start}, closed_set = {}, steps = []\<rparr>"

definition astar :: "grid \<Rightarrow> cell \<Rightarrow> cell \<Rightarrow> bool \<Rightarrow> (error + result option) option" where
  "astar grid start goal record_steps =
     (case grid_dims grid of
        Inl e \<Rightarrow> Some (Inl e)
      | Inr (rows, cols) \<Rightarrow>
          astar_loop grid rows cols start goal record_steps (astar_init start goal))"


section \<open>Random numbers\<close>

text \<open>
  Python's \<open>random\<close> module is not part of the repository. Its hidden global state is
  a value of an arbitrary type \<open>'r\<close>, threaded through every function that draws from
  it, and its three operations used by the program are parameters:
  \<open>random.seed(n)\<close>, \<open>random.random()\<close> and \<open>random.randrange(n)\<close> for positive \<open>n\<close>.
  Floats are only compared by the program, so a draw is a real number.
\<close>

record 'r random_module =
  seed_fn :: "int \<Rightarrow> 'r"
  random_fn :: "'r \<Rightarrow> real \<times> 'r"
  randrange_fn :: "int \<Rightarrow> 'r \<Rightarrow> int \<times> 'r"

text \<open>\<open>random.randrange(n)\<close> raises ValueError on an empty range.\<close>

definition py_randrange :: "'r random_module \<Rightarrow> int \<Rightarrow> 'r \<Rightarrow> error + (int \<times> 'r)" where
  "py_randrange R n rng = (if n \<le> 0 then Inl ValueError else Inr (randrange_fn R n rng))"

section \<open>Grid generation\<close>

text \<open>The body of the inner loop of \<open>generate_grid\<close> at row \<open>r\<close> and column \<open>c\<close>.\<close>

definition fill_cell :: "'r random_module \<Rightarrow> real \<Rightarrow> real \<Rightarrow> nat \<Rightarrow> nat \<Rightarrow> grid \<times> 'r \<Rightarrow> grid \<times> 'r" where
  "fill_cell R wall_prob mud_prob r c st =
     (let grid = fst st;
          (rnum, rng1) = random_fn R (snd st)
      in if rnum < wall_prob then (grid[r := (grid ! r)[c := TILE_WALL]], rng1)
         else
           let (x, rng2) = random_fn R rng1
           in if x < mud_prob then (grid[r := (grid ! r)[c := TILE_MUD]], rng2)
              else (grid, rng2))"

definition generate_grid :: "'r random_module \<Rightarrow> int \<Rightarrow> int \<Rightarrow> real \<Rightarrow> real \<Rightarrow> int option \<Rightarrow> 'r \<Rightarrow> grid \<times> 'r" where
  "generate_grid R rows cols wall_prob mud_prob seed rng =
     (let rng0 = (case seed of None \<Rightarrow> rng | Some n \<Rightarrow> seed_fn R n);
          grid0 = replicate (nat rows) (replicate (nat cols) TILE_NORMAL)
      in fold (\<lambda>r. fold (\<lambda>c. fill_cell R wall_prob mud_prob r c) [0..<nat cols])
              [0..<nat rows] (grid0, rng0))"

text \<open>
  The generation rule in the words of the specification: one tile is determined by two
  sequential draws, the second made only when the first is not below the wall
  probability; \<open>n\<close> tiles are determined one after the other from the same stream.
\<close>

definition spec_tile :: "'r random_module \<Rightarrow> real \<Rightarrow> real \<Rightarrow> 'r \<Rightarrow> char \<times> 'r" where
  "spec_tile R wall_prob mud_prob rng =
     (let first = random_fn R rng in
      if fst first < wall_prob then (TILE_WALL, snd first)
      else
        let second = random_fn R (snd first) in
        if fst second < mud_prob then (TILE_MUD, snd second) else (TILE_NORMAL, snd second))"

fun spec_tiles :: "'r random_module \<Rightarrow> real \<Rightarrow> real \<Rightarrow> nat \<Rightarrow> 'r \<Rightarrow> char list \<times> 'r" where
  "spec_tiles R wall_prob mud_prob 0 rng = ([], rng)"
| "spec_tiles R wall_prob mud_prob (Suc n) rng =
     (let one = spec_tile R wall_prob mud_prob rng;
          more = spec_tiles R wall_prob mud_prob n (snd one)
      in (fst one # fst more, snd more))"

text \<open>A small deterministic generator to run the functions on: its state is a counter,
  \<open>random()\<close> cycles through 0, 1/4, 1/2, 3/4 and \<open>randrange(n)\<close> returns half the counter
  modulo \<open>n\<close>.\<close>

definition demo_random :: "nat random_module" where
  "demo_random =
     \<lparr>seed_fn = (\<lambda>n. nat \<bar>n\<bar>),
      random_fn = (\<lambda>k. (real (k mod 4) / 4, Suc k)),
      randrange_fn = (\<lambda>n k. (int (k div 2) mod n, Suc k))\<rparr>"

section \<open>Placement of start and goal\<close>

partial_function (option) random_empty_cell_loop :: "'r random_module \<Rightarrow> grid \<Rightarrow> int \<Rightarrow> int \<Rightarrow> 'r \<Rightarrow> (error + (cell \<times> 'r)) option" where
  "random_empty_cell_loop R grid rows cols rng =
     (case py_randrange R rows rng of
        Inl e \<Rightarrow> Some (Inl e)
      | Inr (r, rng1) \<Rightarrow>
          (case py_randrange R cols rng1 of
             Inl e \<Rightarrow> Some (Inl e)
           | Inr (c, rng2) \<Rightarrow>
               (case grid_get grid (r, c) of
                  Inl e \<Rightarrow> Some (Inl e)
                | Inr t \<Rightarrow>
                    if t \<noteq> TILE_WALL then Some (Inr ((r, c), rng2))
                    else random_empty_cell_loop R grid rows cols rng2)))"

definition random_empty_cell :: "'r random_module \<Rightarrow> grid \<Rightarrow> 'r \<Rightarrow> (error + (cell \<times> 'r)) option" where
  "random_empty_cell R grid rng =
     (case grid_dims grid of
        Inl e \<Rightarrow> Some (Inl e)
      | Inr (rows, cols) \<Rightarrow> random_empty_cell_loop R grid rows cols rng)"

text \<open>The body of the loop over the four directions in \<open>ensure_reachable\<close>; the state is
  the queue and the set of seen cells.\<close>

definition bfs_visit :: "grid \<Rightarrow> int \<Rightarrow> int \<Rightarrow> cell \<Rightarrow> int \<times> int \<Rightarrow> cell list \<times> cell set \<Rightarrow> error + (cell list \<times> cell set)" where
  "bfs_visit grid rows cols cur d st =
     (let nr = fst cur + fst d; nc = snd cur + snd d in
      if 0 \<le> nr \<and> nr < rows \<and> 0 \<le> nc \<and> nc < cols then
        (case grid_get grid (nr, nc) of
           Inl e \<Rightarrow> Inl e
         | Inr t \<Rightarrow>
             if t \<noteq> TILE_WALL \<and> (nr, nc) \<notin> snd st
             then Inr (fst st @ [(nr, nc)], insert (nr, nc) (snd st))
             else Inr st)
      else Inr st)"

fun bfs_visit_all :: "grid \<Rightarrow> int \<Rightarrow> int \<Rightarrow> cell \<Rightarrow> (int \<times> int) list \<Rightarrow> cell list \<times> cell set \<Rightarrow> error + (cell list \<times> cell set)" where
  "bfs_visit_all grid rows cols cur [] st = Inr st"
| "bfs_visit_all grid rows cols cur (d # ds) st =
     (case bfs_visit grid rows cols cur d st of
        Inl e \<Rightarrow> Inl e
      | Inr st' \<Rightarrow> bfs_visit_all grid rows cols cur ds st')"

partial_function (option) ensure_reachable_loop :: "grid \<Rightarrow> int \<Rightarrow> int \<Rightarrow> cell \<Rightarrow> cell list \<Rightarrow> cell set \<Rightarrow> (error + bool) option" where
  "ensure_reachable_loop grid rows cols goal q seen =
     (case q of
        [] \<Rightarrow> Some (Inr False)
      | cur # q' \<Rightarrow>
          if cur = goal then Some (Inr True)
          else
            (case bfs_visit_all grid rows cols cur [(1, 0), (-1, 0), (0, 1), (0, -1)] (q', seen) of
               Inl e \<Rightarrow> Some (Inl e)
             | Inr (q'', seen') \<Rightarrow> ensure_reachable_loop grid rows cols goal q'' seen'))"

definition ensure_reachable :: "grid \<Rightarrow> cell \<Rightarrow> cell \<Rightarrow> (error + bool) option" where
  "ensure_reachable grid start goal =
     (case grid_dims grid of
        Inl e \<Rightarrow> Some (Inl e)
      | Inr (rows, cols) \<Rightarrow> ensure_reachable_loop grid rows cols goal [start] {start})"

text \<open>The loop \<open>while True\<close> of \<open>place_entities_on_grid\<close>; its state is the current grid,
  the retry counter and the random state.\<close>

partial_function (option) place_loop :: "'r random_module \<Rightarrow> int \<Rightarrow> int \<Rightarrow> real \<Rightarrow> real \<Rightarrow> int \<Rightarrow> grid \<Rightarrow> int \<Rightarrow> 'r \<Rightarrow> (error + (grid \<times> cell \<times> cell) \<times> 'r) option" where
  "place_loop R rows cols wall_prob mud_prob max_place_tries grid tries rng =
     (case random_empty_cell R grid rng of
        None \<Rightarrow> None
      | Some (Inl e) \<Rightarrow> Some (Inl e)
      | Some (Inr (start, rng1)) \<Rightarrow>
          (case random_empty_cell R grid rng1 of
             None \<Rightarrow> None
           | Some (Inl e) \<Rightarrow> Some (Inl e)
           | Some (Inr (goal, rng2)) \<Rightarrow>
               if start = goal then
                 (if tries + 1 > max_place_tries
                  then
                    place_loop R rows cols wall_prob mud_prob max_place_tries
                      (fst (generate_grid R rows cols wall_prob mud_prob None rng2)) 0
                      (snd (generate_grid R rows cols wall_prob mud_prob None rng2))
                  else place_loop R rows cols wall_prob mud_prob max_place_tries grid (tries + 1) rng2)
               else
                 (case ensure_reachable grid start goal of
                    None \<Rightarrow> None
                  | Some (Inl e) \<Rightarrow> Some (Inl e)
                  | Some (Inr reachable) \<Rightarrow>
                      if reachable then Some (Inr ((grid, start, goal), rng2))
                      else
                        (if tries + 1 > max_place_tries
                         then
                           place_loop R rows cols wall_prob mud_prob max_place_tries
                             (fst (generate_grid R rows cols wall_prob mud_prob None rng2)) 0
                             (snd (generate_grid R rows cols wall_prob mud_prob None rng2))
                         else place_loop R rows cols wall_prob mud_prob max_place_tries grid (tries + 1) rng2))))"

definition place_entities_on_grid :: "'r random_module \<Rightarrow> int \<Rightarrow> int \<Rightarrow> real \<Rightarrow> real \<Rightarrow> int option \<Rightarrow> int \<Rightarrow> 'r \<Rightarrow> (error + (grid \<times> cell \<times> cell) \<times> 'r) option" where
  "place_entities_on_grid R rows cols wall_prob mud_prob seed max_place_tries rng =
     (let (grid, rng0) = generate_grid R rows cols wall_prob mud_prob seed rng
      in place_loop R rows cols wall_prob mud_prob max_place_tries grid 0 rng0)"

section \<open>One iteration of the main loop\<close>

text \<open>
  Names for the parts of the body of \<open>astar_loop\<close>: the cell of the popped entry, the
  state after the pop, the state after the cell has been moved to the closed set (and
  the snapshot recorded), and the return at the goal.
\<close>

definition popped_cell :: "astate \<Rightarrow> cell" where
  "popped_cell s = snd (snd (fst (heappop (open_heap s))))"

definition pop_heap :: "astate \<Rightarrow> astate" where
  "pop_heap s = s\<lparr>open_heap := snd (heappop (open_heap s))\<rparr>"

definition close_cell :: "bool \<Rightarrow> cell \<Rightarrow> astate \<Rightarrow> astate" where
  "close_cell record_steps current s1 =
     (let s2 = s1\<lparr>open_set := open_set s1 - {current},
                 closed_set := insert current (closed_set s1)\<rparr>
      in if record_steps
         then s2\<lparr>steps := steps s2 @
                [\<lparr>snap_current = current, snap_open = open_set s2,
                  snap_closed = closed_set s2, snap_g = g_score s2\<rparr>]\<rparr>
         else s2)"

definition finish :: "cell \<Rightarrow> cell \<Rightarrow> astate \<Rightarrow> (error + result option) option" where
  "finish start current s3 =
     (case reconstruct (parent s3) start current [] of
        None \<Rightarrow> None
      | Some (Inl e) \<Rightarrow> Some (Inl e)
      | Some (Inr path) \<Rightarrow>
          Some (Inr (Some \<lparr>res_path = path, res_expanded = card (closed_set s3),
                           res_steps = steps s3\<rparr>)))"

text \<open>The state at the head of the next iteration, when the loop goes round again.\<close>

definition astar_next :: "grid \<Rightarrow> int \<Rightarrow> int \<Rightarrow> cell \<Rightarrow> bool \<Rightarrow> astate \<Rightarrow> astate option" where
  "astar_next grid rows cols goal record_steps s =
     (if open_heap s = [] then None
      else if popped_cell s \<in> closed_set s then Some (pop_heap s)
      else if popped_cell s = goal then None
      else
        (case relax_all grid rows cols goal (popped_cell s) DIRS
                (close_cell record_steps (popped_cell s) (pop_heap s)) of
           Inl e \<Rightarrow> None
         | Inr s4 \<Rightarrow> Some s4))"

text \<open>The state after \<open>n\<close> iterations, if the loop runs that long.\<close>

fun astar_iter :: "grid \<Rightarrow> int \<Rightarrow> int \<Rightarrow> cell \<Rightarrow> bool \<Rightarrow> nat \<Rightarrow> astate \<Rightarrow> astate option" where
  "astar_iter grid rows cols goal record_steps 0 s = Some s"
| "astar_iter grid rows cols goal record_steps (Suc n) s =
     (case astar_next grid rows cols goal record_steps s of
        None \<Rightarrow> None
      | Some s' \<Rightarrow> astar_iter grid rows cols goal record_steps n s')"

text \<open>The quantity that decreases with every iteration: the cells that can still be
  expanded (those in the heap or inside the bounds, and not closed), then the size of
  the heap.\<close>

definition heap_cells :: "astate \<Rightarrow> cell set" where
  "heap_cells s = (\<lambda>e. snd (snd e)) ` set (open_heap s)"

definition bound_cells :: "int \<Rightarrow> int \<Rightarrow> cell set" where
  "bound_cells rows cols = {0..<rows} \<times> {0..<cols}"

definition loop_measure :: "int \<Rightarrow> int \<Rightarrow> astate \<Rightarrow> nat \<times> nat" where
  "loop_measure rows cols s =
     (card ((heap_cells s \<union> bound_cells rows cols) - closed_set s), length (open_heap s))"

section \<open>Vocabulary of the specification\<close>

definition rectangular :: "grid \<Rightarrow> bool" where
  "rectangular grid \<longleftrightarrow> grid \<noteq> [] \<and> (\<forall>row \<in> set grid. length row = length (hd grid))"

definition in_bounds :: "grid \<Rightarrow> cell \<Rightarrow> bool" where
  "in_bounds grid p \<longleftrightarrow>
     0 \<le> fst p \<and> fst p < int (length grid) \<and>
     0 \<le> snd p \<and> snd p < int (length (grid ! nat (fst p)))"

definition tile_at :: "grid \<Rightarrow> cell \<Rightarrow> char" where
  "tile_at grid p = grid ! nat (fst p) ! nat (snd p)"

definition passable :: "grid \<Rightarrow> cell \<Rightarrow> bool" where
  "passable grid p \<longleftrightarrow> in_bounds grid p \<and> tile_at grid p \<noteq> TILE_WALL"

definition is_wall :: "grid \<Rightarrow> cell \<Rightarrow> bool" where
  "is_wall grid p \<longleftrightarrow> in_bounds grid p \<and> tile_at grid p = TILE_WALL"

text \<open>Two cells are adjacent when they differ by one step in exactly one coordinate.\<close>

definition adjacent :: "cell \<Rightarrow> cell \<Rightarrow> bool" where
  "adjacent a b \<longleftrightarrow>
     (fst a = fst b \<and> \<bar>snd a - snd b\<bar> = 1) \<or> (snd a = snd b \<and> \<bar>fst a - fst b\<bar> = 1)"

fun steps_adjacent :: "cell list \<Rightarrow> bool" where
  "steps_adjacent [] = True"
| "steps_adjacent [a] = True"
| "steps_adjacent (a # b # rest) = (adjacent a b \<and> steps_adjacent (b # rest))"

text \<open>A route leaves its first cell and enters only passable cells; a valid path is a
  route from \<open>start\<close> to \<open>goal\<close> whose first cell is passable too.\<close>

definition route :: "grid \<Rightarrow> cell \<Rightarrow> cell \<Rightarrow> cell list \<Rightarrow> bool" where
  "route grid a b p \<longleftrightarrow>
     p \<noteq> [] \<and> hd p = a \<and> last p = b \<and> steps_adjacent p \<and> (\<forall>c \<in> set (tl p). passable grid c)"

definition valid_path :: "grid \<Rightarrow> cell \<Rightarrow> cell \<Rightarrow> cell list \<Rightarrow> bool" where
  "valid_path grid start goal p \<longleftrightarrow>
     p \<noteq> [] \<and> hd p = start \<and> last p = goal \<and> steps_adjacent p \<and> (\<forall>c \<in> set p. passable grid c)"

text \<open>The cost of a path: the cost of every tile entered, the first cell excluded.\<close>

definition entry_cost :: "grid \<Rightarrow> cell \<Rightarrow> int" where
  "entry_cost grid c = COSTS_get (tile_at grid c)"

definition path_cost :: "grid \<Rightarrow> cell list \<Rightarrow> int" where
  "path_cost grid p = sum_list (map (entry_cost grid) (tl p))"

section \<open>Invariants of the search\<close>

text \<open>The state change of a successful relaxation: the four assignments in the body of
  \<open>if tentative_g < g.get(neighbor, inf)\<close>.\<close>

definition improve :: "cell \<Rightarrow> cell \<Rightarrow> cell \<Rightarrow> int \<Rightarrow> astate \<Rightarrow> astate" where
  "improve goal current neighbor tentative_g s =
     s\<lparr>g_score := (g_score s)(neighbor \<mapsto> tentative_g),
       parent := (parent s)(neighbor \<mapsto> current),
       open_heap := heappush (open_heap s)
          (tentative_g + manhattan neighbor goal, tentative_g, neighbor),
       open_set := insert neighbor (open_set s)\<rparr>"

text \<open>The back pointers: \<open>start\<close> has cost 0 and no parent; every other cell with a cost
  has a parent; a parent link enters a passable cell from an adjacent cell whose cost is
  smaller by at least the cost of the entered tile; every cell in the heap has a cost.\<close>

definition chain_inv :: "grid \<Rightarrow> cell \<Rightarrow> astate \<Rightarrow> bool" where
  "chain_inv grid start s \<longleftrightarrow>
     g_score s start = Some 0 \<and>
     parent s start = None \<and>
     (\<forall>v u. parent s v = Some u \<longrightarrow>
        passable grid v \<and> adjacent u v \<and>
        (\<exists>gu gv. g_score s u = Some gu \<and> g_score s v = Some gv \<and> gu + entry_cost grid v \<le> gv)) \<and>
     (\<forall>v gv. g_score s v = Some gv \<longrightarrow> 0 \<le> gv \<and> (v \<noteq> start \<longrightarrow> parent s v \<noteq> None)) \<and>
     (\<forall>e \<in> set (open_heap s). g_score s (snd (snd e)) \<noteq> None)"

text \<open>The heap: the key of an entry is \<open>(g + h, g)\<close> for a cost \<open>g\<close> that is not below the
  cell's best known cost; every cell with a cost that is not closed has an entry with
  its best known cost; closed cells have a cost.\<close>

definition heap_inv :: "cell \<Rightarrow> astate \<Rightarrow> bool" where
  "heap_inv goal s \<longleftrightarrow>
     (\<forall>e \<in> set (open_heap s).
        fst e = fst (snd e) + manhattan (snd (snd e)) goal \<and>
        (\<exists>gc. g_score s (snd (snd e)) = Some gc \<and> gc \<le> fst (snd e))) \<and>
     (\<forall>v gv. g_score s v = Some gv \<and> v \<notin> closed_set s \<longrightarrow>
        (gv + manhattan v goal, gv, v) \<in> set (open_heap s)) \<and>
     (\<forall>u \<in> closed_set s. g_score s u \<noteq> None)"

text \<open>The cost of a closed cell is not above the cost of any route from \<open>start\<close> to it.\<close>

definition closed_opt :: "grid \<Rightarrow> cell \<Rightarrow> astate \<Rightarrow> bool" where
  "closed_opt grid start s \<longleftrightarrow>
     (\<forall>u \<in> closed_set s. \<forall>gu p.
        g_score s u = Some gu \<and> route grid start u p \<longrightarrow> gu \<le> path_cost grid p)"

text \<open>The edge from \<open>u\<close> into \<open>v\<close> is relaxed: the cost of \<open>v\<close> is at most the cost of
  \<open>u\<close> plus the cost of entering \<open>v\<close>.\<close>

definition relaxed :: "grid \<Rightarrow> astate \<Rightarrow> cell \<Rightarrow> cell \<Rightarrow> bool" where
  "relaxed grid s u v \<longleftrightarrow>
     (\<exists>gu gv. g_score s u = Some gu \<and> g_score s v = Some gv \<and> gv \<le> gu + entry_cost grid v)"

text \<open>Every edge out of a closed cell into a passable cell is relaxed; for the cell
  \<open>cur\<close> being expanded, only the edges in the directions \<open>D\<close> handled so far.\<close>

definition settled :: "grid \<Rightarrow> cell \<Rightarrow> (int \<times> int) set \<Rightarrow> astate \<Rightarrow> bool" where
  "settled grid cur D s \<longleftrightarrow>
     (\<forall>u \<in> closed_set s. \<forall>v.
        passable grid v \<and> adjacent u v \<and> (u = cur \<longrightarrow> (fst v - fst u, snd v - snd u) \<in> D)
        \<longrightarrow> relaxed grid s u v)"

definition search_inv :: "grid \<Rightarrow> cell \<Rightarrow> cell \<Rightarrow> cell \<Rightarrow> (int \<times> int) set \<Rightarrow> astate \<Rightarrow> bool" where
  "search_inv grid start goal cur D s \<longleftrightarrow>
     chain_inv grid start s \<and> heap_inv goal s \<and> closed_opt grid start s \<and>
     settled grid cur D s \<and> goal \<notin> closed_set s"

text \<open>What a caller sees of a call apart from the recorded steps: the error, the
  not-found result, or the path with the number of expanded cells.\<close>

definition outcome :: "(error + result option) option \<Rightarrow> (error + (cell list \<times> nat) option) option" where
  "outcome x = map_option (map_sum id (map_option (\<lambda>r. (res_path r, res_expanded r)))) x"

text \<open>Every entry of the heap carries the key \<open>(g + h, g)\<close> of its cell.\<close>

definition keys_inv :: "cell \<Rightarrow> astate \<Rightarrow> bool" where
  "keys_inv goal s \<longleftrightarrow>
     (\<forall>e \<in> set (open_heap s). fst e = fst (snd e) + manhattan (snd (snd e)) goal)"

text \<open>A recorded step expanded a cell with the least key: in the snapshot, the expanded
  cell has a cost \<open>gc\<close>, and for every cell \<open>v\<close> that has a cost \<open>gv\<close> and is not closed, the
  key \<open>(gc + h, gc)\<close> of the expanded cell is not above the key \<open>(gv + h, gv)\<close> of \<open>v\<close> in the
  lexicographic order.\<close>

definition expanded_least :: "cell \<Rightarrow> snapshot \<Rightarrow> bool" where
  "expanded_least goal sn \<longleftrightarrow>
     (\<exists>gc. snap_g sn (snap_current sn) = Some gc \<and>
        (\<forall>v gv. snap_g sn v = Some gv \<and> v \<notin> snap_closed sn \<longrightarrow>
           gc + manhattan (snap_current sn) goal < gv + manhattan v goal \<or>
           (gc + manhattan (snap_current sn) goal = gv + manhattan v goal \<and> gc \<le> gv)))"

text \<open>The cell read at \<open>p\<close> with Python's indexing exists and is not a Wall.\<close>

definition non_wall :: "grid \<Rightarrow> cell \<Rightarrow> bool" where
  "non_wall grid p \<longleftrightarrow> (case grid_get grid p of Inl e \<Rightarrow> False | Inr t \<Rightarrow> t \<noteq> TILE_WALL)"

text \<open>The contract of \<open>random.randrange(n)\<close> for positive \<open>n\<close>: the result is in \<open>range(n)\<close>.\<close>

definition randrange_ok :: "'r random_module \<Rightarrow> bool" where
  "randrange_ok R \<longleftrightarrow>
     (\<forall>n rng. 0 < n \<longrightarrow> 0 \<le> fst (randrange_fn R n rng) \<and> fst (randrange_fn R n rng) < n)"

section \<open>Basic facts about the heap and the loop\<close>

lemma heappop_fst_in: "h \<noteq> [] \<Longrightarrow> fst (heappop h) \<in> set h"
  by (simp add: heappop_def Let_def)

lemma heappop_fst_le: "x \<in> set h \<Longrightarrow> fst (heappop h) \<le> x"
  by (simp add: heappop_def Let_def)

lemma heappop_length: "h \<noteq> [] \<Longrightarrow> length (snd (heappop h)) < length h"
  using heappop_fst_in [of h]
  by (simp add: heappop_def Let_def length_remove1 length_greater_0_conv)

lemma heappop_set_subset: "set (snd (heappop h)) \<subseteq> set h"
  by (simp add: heappop_def Let_def set_remove1_subset)

lemma heappop_set_other: "x \<in> set h \<Longrightarrow> x \<noteq> fst (heappop h) \<Longrightarrow> x \<in> set (snd (heappop h))"
  by (simp add: heappop_def Let_def)

lemma astar_loop_unfold:
  "astar_loop grid rows cols start goal rs s =
     (if open_heap s = [] then Some (Inr None)
      else if popped_cell s \<in> closed_set s
        then astar_loop grid rows cols start goal rs (pop_heap s)
      else if popped_cell s = goal
        then finish start goal (close_cell rs goal (pop_heap s))
      else
        (case relax_all grid rows cols goal (popped_cell s) DIRS
                (close_cell rs (popped_cell s) (pop_heap s)) of
           Inl e \<Rightarrow> Some (Inl e)
         | Inr s4 \<Rightarrow> astar_loop grid rows cols start goal rs s4))"
  by (subst astar_loop.simps, cases rs)
     (simp_all add: popped_cell_def pop_heap_def close_cell_def finish_def Let_def
        cong: option.case_cong sum.case_cong)

lemma astar_loop_next:
  "astar_next grid rows cols goal rs s = Some s' \<Longrightarrow>
   astar_loop grid rows cols start goal rs s = astar_loop grid rows cols start goal rs s'"
  by (subst astar_loop_unfold) (auto simp: astar_next_def split: if_splits sum.splits)

lemma relax_frame:
  assumes "relax grid rows cols goal cur d s = Inr s'"
  shows "closed_set s' = closed_set s" and "steps s' = steps s"
    and "heap_cells s' \<subseteq> heap_cells s \<union> bound_cells rows cols"
  using assms
  by (auto simp: relax_def Let_def heap_cells_def bound_cells_def heappush_def
           split: if_splits sum.splits option.splits)

lemma relax_all_frame:
  assumes "relax_all grid rows cols goal cur ds s = Inr s'"
  shows "closed_set s' = closed_set s \<and> steps s' = steps s \<and>
     heap_cells s' \<subseteq> heap_cells s \<union> bound_cells rows cols"
  using assms
proof (induction ds arbitrary: s)
  case Nil
  then show ?case by simp
next
  case (Cons d ds)
  then obtain s1 where r: "relax grid rows cols goal cur d s = Inr s1"
    and ra: "relax_all grid rows cols goal cur ds s1 = Inr s'"
    by (auto split: sum.splits)
  from relax_frame [OF r] Cons.IH [OF ra] show ?case by auto
qed

lemma finite_bound_cells: "finite (bound_cells rows cols)"
  by (simp add: bound_cells_def)

lemma finite_heap_cells: "finite (heap_cells s)"
  by (simp add: heap_cells_def)

lemma close_cell_fields:
  "closed_set (close_cell rs c s) = insert c (closed_set s)"
  "open_heap (close_cell rs c s) = open_heap s"
  "g_score (close_cell rs c s) = g_score s"
  "parent (close_cell rs c s) = parent s"
  "heap_cells (close_cell rs c s) = heap_cells s"
  by (simp_all add: close_cell_def Let_def heap_cells_def)

lemma pop_heap_fields:
  "closed_set (pop_heap s) = closed_set s"
  "g_score (pop_heap s) = g_score s"
  "parent (pop_heap s) = parent s"
  "steps (pop_heap s) = steps s"
  "open_heap (pop_heap s) = snd (heappop (open_heap s))"
  by (simp_all add: pop_heap_def)

lemma heap_cells_pop: "heap_cells (pop_heap s) \<subseteq> heap_cells s"
  using heappop_set_subset [of "open_heap s"]
  by (auto simp: heap_cells_def pop_heap_def)

lemma popped_cell_in: "open_heap s \<noteq> [] \<Longrightarrow> popped_cell s \<in> heap_cells s"
  using heappop_fst_in [of "open_heap s"]
  by (auto simp: heap_cells_def popped_cell_def)

lemma astar_next_decreases:
  assumes "astar_next grid rows cols goal rs s = Some s'"
  shows "(loop_measure rows cols s', loop_measure rows cols s) \<in> less_than <*lex*> less_than"
proof -
  from assms have ne: "open_heap s \<noteq> []" by (auto simp: astar_next_def split: if_splits)
  let ?B = "bound_cells rows cols"
  show ?thesis
  proof (cases "popped_cell s \<in> closed_set s")
    case True
    with assms ne have s': "s' = pop_heap s" by (simp add: astar_next_def)
    have "(heap_cells s' \<union> ?B) - closed_set s' \<subseteq> (heap_cells s \<union> ?B) - closed_set s"
      using heap_cells_pop [of s] by (auto simp: s' pop_heap_fields)
    then have "card ((heap_cells s' \<union> ?B) - closed_set s') \<le> card ((heap_cells s \<union> ?B) - closed_set s)"
      by (intro card_mono) (auto simp: finite_bound_cells finite_heap_cells)
    moreover have "length (open_heap s') < length (open_heap s)"
      using heappop_length [OF ne] by (simp add: s' pop_heap_fields)
    ultimately show ?thesis by (auto simp: loop_measure_def)
  next
    case False
    with assms ne have ra: "relax_all grid rows cols goal (popped_cell s) DIRS
        (close_cell rs (popped_cell s) (pop_heap s)) = Inr s'"
      by (auto simp: astar_next_def split: if_splits sum.splits)
    from relax_all_frame [OF ra]
    have c: "closed_set s' = insert (popped_cell s) (closed_set s)"
      and h: "heap_cells s' \<subseteq> heap_cells (pop_heap s) \<union> ?B"
      by (auto simp: close_cell_fields pop_heap_fields)
    have "(heap_cells s' \<union> ?B) - closed_set s' \<subset> (heap_cells s \<union> ?B) - closed_set s"
      using h c heap_cells_pop [of s] popped_cell_in [OF ne] False by auto
    then have "card ((heap_cells s' \<union> ?B) - closed_set s') < card ((heap_cells s \<union> ?B) - closed_set s)"
      by (intro psubset_card_mono) (auto simp: finite_bound_cells finite_heap_cells)
    then show ?thesis by (auto simp: loop_measure_def)
  qed
qed

lemma astar_next_induct [case_names step]:
  assumes "\<And>s. (\<And>s'. astar_next grid rows cols goal rs s = Some s' \<Longrightarrow> P s') \<Longrightarrow> P s"
  shows "P s"
proof -
  have "wf (inv_image (less_than <*lex*> less_than) (loop_measure rows cols))"
    by (intro wf_inv_image wf_lex_prod wf_less_than)
  then show ?thesis
  proof (induction s rule: wf_induct_rule)
    case (less s)
    show ?case
      by (rule assms) (auto intro!: less dest: astar_next_decreases)
  qed
qed

section \<open>Back pointers and path reconstruction\<close>

lemma COSTS_get_pos: "1 \<le> COSTS_get t"
  by (simp add: COSTS_get_def)

lemma entry_cost_pos: "1 \<le> entry_cost grid c"
  by (simp add: entry_cost_def COSTS_get_pos)

lemma py_index_nonneg:
  "0 \<le> i \<Longrightarrow> py_index xs i = Inr x \<longleftrightarrow> i < int (length xs) \<and> x = xs ! nat i"
  by (auto simp: py_index_def Let_def)

lemma grid_get_nonneg:
  assumes "0 \<le> fst p" "0 \<le> snd p"
  shows "grid_get grid p = Inr t \<longleftrightarrow> in_bounds grid p \<and> t = tile_at grid p"
  using assms
  by (auto simp: grid_get_def in_bounds_def tile_at_def py_index_nonneg split: sum.splits)
     (auto simp: py_index_def Let_def split: if_splits)

lemma DIRS_adjacent:
  "d \<in> set DIRS \<Longrightarrow> adjacent cur (fst cur + fst d, snd cur + snd d)"
  by (auto simp: DIRS_def adjacent_def)

lemma adjacent_DIRS:
  "adjacent u v \<Longrightarrow> (fst v - fst u, snd v - snd u) \<in> set DIRS"
  by (auto simp: DIRS_def adjacent_def abs_if split: if_splits)

lemma adjacent_neq: "adjacent u v \<Longrightarrow> u \<noteq> v"
  by (auto simp: adjacent_def)

lemma relax_cases:
  assumes "relax grid rows cols goal cur d s = Inr s'"
  shows "s' = s \<or>
    (\<exists>gc. passable grid (fst cur + fst d, snd cur + snd d) \<and>
       0 \<le> fst cur + fst d \<and> fst cur + fst d < rows \<and>
       0 \<le> snd cur + snd d \<and> snd cur + snd d < cols \<and>
       g_score s cur = Some gc \<and>
       (\<forall>gn. g_score s (fst cur + fst d, snd cur + snd d) = Some gn \<longrightarrow>
          gc + entry_cost grid (fst cur + fst d, snd cur + snd d) < gn) \<and>
       s' = improve goal cur (fst cur + fst d, snd cur + snd d)
              (gc + entry_cost grid (fst cur + fst d, snd cur + snd d)) s)"
proof -
  let ?nb = "(fst cur + fst d, snd cur + snd d)"
  show ?thesis
  proof (cases "0 \<le> fst ?nb \<and> fst ?nb < rows \<and> 0 \<le> snd ?nb \<and> snd ?nb < cols")
    case False
    with assms show ?thesis by (auto simp: relax_def Let_def)
  next
    case True
    note bnd = True
    with assms obtain t where t: "grid_get grid ?nb = Inr t"
      by (auto simp: relax_def Let_def split: sum.splits)
    with bnd have ib: "in_bounds grid ?nb" and tt: "t = tile_at grid ?nb"
      using grid_get_nonneg [of ?nb grid t] by auto
    show ?thesis
    proof (cases "t = TILE_WALL")
      case True
      with assms t bnd show ?thesis by (simp add: relax_def Let_def)
    next
      case False
      with assms t bnd obtain gc where gc: "g_score s cur = Some gc"
        by (auto simp: relax_def Let_def split: option.splits)
      from False ib tt have p: "passable grid ?nb" by (simp add: passable_def)
      from assms t bnd False gc tt show ?thesis
        using p
        by (auto simp: relax_def Let_def improve_def entry_cost_def split: option.splits if_splits)
    qed
  qed
qed


lemma chain_inv_init: "chain_inv grid start (astar_init start goal)"
  by (simp add: chain_inv_def astar_init_def heappush_def)

lemma chain_inv_pop: "chain_inv grid start s \<Longrightarrow> chain_inv grid start (pop_heap s)"
  using heappop_set_subset [of "open_heap s"]
  by (auto simp: chain_inv_def pop_heap_fields)

lemma chain_inv_close: "chain_inv grid start s \<Longrightarrow> chain_inv grid start (close_cell rs c s)"
  by (simp add: chain_inv_def close_cell_fields)

lemma improve_fields:
  "g_score (improve goal cur nb tg s) = (g_score s)(nb \<mapsto> tg)"
  "parent (improve goal cur nb tg s) = (parent s)(nb \<mapsto> cur)"
  "open_heap (improve goal cur nb tg s) = open_heap s @ [(tg + manhattan nb goal, tg, nb)]"
  "closed_set (improve goal cur nb tg s) = closed_set s"
  "steps (improve goal cur nb tg s) = steps s"
  by (simp_all add: improve_def heappush_def)

lemma chain_inv_improve:
  assumes inv: "chain_inv grid start s"
    and p: "passable grid nb" and adj: "adjacent cur nb"
    and gc: "g_score s cur = Some gc"
    and better: "\<forall>gn. g_score s nb = Some gn \<longrightarrow> gc + entry_cost grid nb < gn"
  shows "chain_inv grid start (improve goal cur nb (gc + entry_cost grid nb) s)"
proof -
  let ?s' = "improve goal cur nb (gc + entry_cost grid nb) s"
  from inv have g0: "g_score s start = Some 0" and p0: "parent s start = None"
    and links: "\<And>v u. parent s v = Some u \<Longrightarrow> passable grid v \<and> adjacent u v \<and>
        (\<exists>gu gv. g_score s u = Some gu \<and> g_score s v = Some gv \<and> gu + entry_cost grid v \<le> gv)"
    and gs: "\<And>v gv. g_score s v = Some gv \<Longrightarrow> 0 \<le> gv \<and> (v \<noteq> start \<longrightarrow> parent s v \<noteq> None)"
    and hp: "\<And>e. e \<in> set (open_heap s) \<Longrightarrow> g_score s (snd (snd e)) \<noteq> None"
    by (auto simp: chain_inv_def)
  from gs [OF gc] have gc0: "0 \<le> gc" by simp
  have c1: "1 \<le> entry_cost grid nb" by (rule entry_cost_pos)
  have nbs: "nb \<noteq> start"
  proof
    assume "nb = start"
    with better g0 have "gc + entry_cost grid nb < 0" by simp
    with gc0 c1 show False by simp
  qed
  have cn: "cur \<noteq> nb" using adj by (rule adjacent_neq)
  have a: "g_score ?s' start = Some 0" using nbs g0 by (simp add: improve_fields)
  have b: "parent ?s' start = None" using nbs p0 by (simp add: improve_fields)
  have c: "passable grid v \<and> adjacent u v \<and>
        (\<exists>gu gv. g_score ?s' u = Some gu \<and> g_score ?s' v = Some gv \<and> gu + entry_cost grid v \<le> gv)"
    if pv: "parent ?s' v = Some u" for v u
  proof (cases "v = nb")
    case True
    with pv have "u = cur" by (simp add: improve_fields)
    with True p adj gc cn show ?thesis by (simp add: improve_fields)
  next
    case False
    with pv have pv': "parent s v = Some u" by (simp add: improve_fields)
    from links [OF pv'] obtain gu gv where pas: "passable grid v" and ad: "adjacent u v"
      and gu: "g_score s u = Some gu" and gv: "g_score s v = Some gv"
      and le: "gu + entry_cost grid v \<le> gv" by blast
    show ?thesis
    proof (cases "u = nb")
      case True
      with gu better have "gc + entry_cost grid nb < gu" by simp
      with le have "gc + entry_cost grid nb + entry_cost grid v \<le> gv" by simp
      with True False pas ad gv show ?thesis by (simp add: improve_fields)
    next
      case False
      with \<open>v \<noteq> nb\<close> pas ad gu gv le show ?thesis by (simp add: improve_fields)
    qed
  qed
  have d: "0 \<le> gv \<and> (v \<noteq> start \<longrightarrow> parent ?s' v \<noteq> None)" if "g_score ?s' v = Some gv" for v gv
    using that gs [of v gv] gc0 c1 by (auto simp: improve_fields split: if_splits)
  have e: "g_score ?s' (snd (snd e)) \<noteq> None" if "e \<in> set (open_heap ?s')" for e
    using that hp [of e] by (auto simp: improve_fields)
  show ?thesis
    unfolding chain_inv_def using a b c d e by blast
qed

lemma chain_inv_relax:
  assumes "chain_inv grid start s" "d \<in> set DIRS"
    and "relax grid rows cols goal cur d s = Inr s'"
  shows "chain_inv grid start s'"
  using relax_cases [OF assms(3)] assms(1) DIRS_adjacent [OF assms(2), of cur]
  by (auto intro: chain_inv_improve)

lemma chain_inv_relax_all:
  assumes "chain_inv grid start s" "set ds \<subseteq> set DIRS"
    and "relax_all grid rows cols goal cur ds s = Inr s'"
  shows "chain_inv grid start s'"
  using assms
proof (induction ds arbitrary: s)
  case Nil
  then show ?case by simp
next
  case (Cons d ds)
  from Cons.prems(3) obtain s1 where r: "relax grid rows cols goal cur d s = Inr s1"
    and ra: "relax_all grid rows cols goal cur ds s1 = Inr s'"
    by (auto split: sum.splits)
  from Cons.prems(2) have d: "d \<in> set DIRS" and ds: "set ds \<subseteq> set DIRS" by auto
  from chain_inv_relax [OF Cons.prems(1) d r] have "chain_inv grid start s1" .
  from Cons.IH [OF this ds ra] show ?case .
qed

lemma chain_inv_next:
  assumes "chain_inv grid start s" "astar_next grid rows cols goal rs s = Some s'"
  shows "chain_inv grid start s'"
proof (cases "popped_cell s \<in> closed_set s")
  case True
  with assms show ?thesis
    by (auto simp: astar_next_def chain_inv_pop split: if_splits)
next
  case False
  with assms(2) have ra: "relax_all grid rows cols goal (popped_cell s) DIRS
        (close_cell rs (popped_cell s) (pop_heap s)) = Inr s'"
    by (auto simp: astar_next_def split: if_splits sum.splits)
  have "chain_inv grid start (close_cell rs (popped_cell s) (pop_heap s))"
    using assms(1) by (intro chain_inv_close chain_inv_pop)
  from chain_inv_relax_all [OF this _ ra] show ?thesis by simp
qed

lemma steps_adjacent_snoc:
  "steps_adjacent (p @ [v]) \<longleftrightarrow> steps_adjacent p \<and> (p \<noteq> [] \<longrightarrow> adjacent (last p) v)"
  by (induction p rule: steps_adjacent.induct) auto

lemma route_single: "route grid a a [a]"
  by (simp add: route_def)

lemma route_snoc:
  assumes "route grid a u p" "adjacent u v" "passable grid v"
  shows "route grid a v (p @ [v])"
  using assms by (auto simp: route_def steps_adjacent_snoc)

lemma path_cost_snoc: "p \<noteq> [] \<Longrightarrow> path_cost grid (p @ [v]) = path_cost grid p + entry_cost grid v"
  by (cases p) (simp_all add: path_cost_def)

lemma path_cost_single: "path_cost grid [a] = 0"
  by (simp add: path_cost_def)

lemma route_snocE:
  assumes "route grid a w (q @ [w])" "q \<noteq> []"
  shows "route grid a (last q) q \<and> adjacent (last q) w \<and> passable grid w"
  using assms by (auto simp: route_def steps_adjacent_snoc)

lemma reconstruct_chain:
  assumes inv: "chain_inv grid start s"
  shows "g_score s v = Some gv \<Longrightarrow>
    \<exists>p. reconstruct (parent s) start v acc = Some (Inr (p @ rev acc)) \<and>
        route grid start v p \<and> path_cost grid p \<le> gv"
proof (induction "nat gv" arbitrary: v gv acc rule: less_induct)
  case less
  from inv have g0: "g_score s start = Some 0"
    and links: "\<And>v u. parent s v = Some u \<Longrightarrow> passable grid v \<and> adjacent u v \<and>
        (\<exists>gu gv. g_score s u = Some gu \<and> g_score s v = Some gv \<and> gu + entry_cost grid v \<le> gv)"
    and gs: "\<And>v gv. g_score s v = Some gv \<Longrightarrow> 0 \<le> gv \<and> (v \<noteq> start \<longrightarrow> parent s v \<noteq> None)"
    by (auto simp: chain_inv_def)
  show ?case
  proof (cases "v = start")
    case True
    have "reconstruct (parent s) start v acc = Some (Inr ([start] @ rev acc))"
      using True by (subst reconstruct.simps) simp
    moreover have "route grid start v [start]" using True by (simp add: route_single)
    moreover have "path_cost grid [start] \<le> gv"
      using gs [OF less.prems] by (simp add: path_cost_single)
    ultimately show ?thesis by blast
  next
    case False
    with gs [OF less.prems] obtain u where pu: "parent s v = Some u" and gv0: "0 \<le> gv" by auto
    from links [OF pu] less.prems obtain gu where pas: "passable grid v" and ad: "adjacent u v"
      and gu: "g_score s u = Some gu" and le: "gu + entry_cost grid v \<le> gv" by auto
    from gs [OF gu] have gu0: "0 \<le> gu" by simp
    have "nat gu < nat gv" using le gu0 entry_cost_pos [of grid v] by simp
    from less.hyps [OF this gu, of "acc @ [v]"] obtain p where
      rc: "reconstruct (parent s) start u (acc @ [v]) = Some (Inr (p @ rev (acc @ [v])))"
      and rt: "route grid start u p" and pc: "path_cost grid p \<le> gu" by blast
    have "reconstruct (parent s) start v acc = Some (Inr ((p @ [v]) @ rev acc))"
      using False pu rc by (subst reconstruct.simps) simp
    moreover have "route grid start v (p @ [v])" using rt ad pas by (rule route_snoc)
    moreover have "path_cost grid (p @ [v]) \<le> gv"
      using rt pc le by (simp add: path_cost_snoc route_def)
    ultimately show ?thesis by blast
  qed
qed

section \<open>The solver always returns\<close>

lemma popped_has_g:
  assumes "chain_inv grid start s" "open_heap s \<noteq> []"
  shows "g_score s (popped_cell s) \<noteq> None"
  using assms heappop_fst_in [OF assms(2)]
  by (auto simp: chain_inv_def popped_cell_def)

lemma finish_chain:
  assumes "chain_inv grid start s" "g_score s goal = Some gg"
  shows "\<exists>p. finish start goal s =
           Some (Inr (Some \<lparr>res_path = p, res_expanded = card (closed_set s),
                            res_steps = steps s\<rparr>)) \<and>
         route grid start goal p \<and> path_cost grid p \<le> gg"
  using reconstruct_chain [OF assms, of "[]"]
  by (auto simp: finish_def)

lemma astar_loop_returns:
  "chain_inv grid start s \<Longrightarrow>
   \<exists>r. astar_loop grid rows cols start goal rs s = Some r \<and>
       (\<forall>res. r = Inr (Some res) \<longrightarrow> route grid start goal (res_path res))"
proof (induction s rule: astar_next_induct [where grid = grid and rows = rows and cols = cols
        and goal = goal and rs = rs])
  case (step s)
  note inv = step.prems
  show ?case
  proof (cases "open_heap s = []")
    case True
    then show ?thesis by (subst astar_loop_unfold) simp
  next
    case ne: False
    show ?thesis
    proof (cases "popped_cell s \<in> closed_set s")
      case True
      with ne have nx: "astar_next grid rows cols goal rs s = Some (pop_heap s)"
        by (simp add: astar_next_def)
      from step.IH [OF nx chain_inv_next [OF inv nx]] astar_loop_next [OF nx, of start]
      show ?thesis by simp
    next
      case nc: False
      let ?s3 = "close_cell rs (popped_cell s) (pop_heap s)"
      have inv3: "chain_inv grid start ?s3"
        using inv by (intro chain_inv_close chain_inv_pop)
      show ?thesis
      proof (cases "popped_cell s = goal")
        case True
        from popped_has_g [OF inv ne] True obtain gg where "g_score ?s3 goal = Some gg"
          by (auto simp: close_cell_fields pop_heap_fields)
        from finish_chain [OF inv3 [unfolded True] this [unfolded True]]
        obtain p where "finish start goal (close_cell rs goal (pop_heap s)) =
           Some (Inr (Some \<lparr>res_path = p,
              res_expanded = card (closed_set (close_cell rs goal (pop_heap s))),
              res_steps = steps (close_cell rs goal (pop_heap s))\<rparr>))"
          and "route grid start goal p" by blast
        then show ?thesis
          using ne nc True by (subst astar_loop_unfold) auto
      next
        case ng: False
        show ?thesis
        proof (cases "relax_all grid rows cols goal (popped_cell s) DIRS ?s3")
          case (Inl e)
          then show ?thesis
            using ne nc ng by (subst astar_loop_unfold) simp
        next
          case (Inr s4)
          with ne nc ng have nx: "astar_next grid rows cols goal rs s = Some s4"
            by (simp add: astar_next_def)
          from step.IH [OF nx chain_inv_next [OF inv nx]] astar_loop_next [OF nx, of start]
          show ?thesis by simp
        qed
      qed
    qed
  qed
qed

lemma astar_returns:
  "\<exists>r. astar grid start goal rs = Some r \<and>
       (\<forall>res. r = Inr (Some res) \<longrightarrow> route grid start goal (res_path res))"
proof (cases "grid_dims grid")
  case (Inl e)
  then show ?thesis by (simp add: astar_def)
next
  case (Inr d)
  obtain rows cols where "d = (rows, cols)" by (cases d)
  with Inr astar_loop_returns [OF chain_inv_init [of grid start goal],
      where rows = rows and cols = cols and goal = goal and rs = rs]
  show ?thesis by (simp add: astar_def)
qed

section \<open>States of a run\<close>

lemma astar_iter_chain_inv:
  "chain_inv grid start s0 \<Longrightarrow> astar_iter grid rows cols goal rs n s0 = Some s \<Longrightarrow>
   chain_inv grid start s"
proof (induction n arbitrary: s0)
  case 0
  then show ?case by simp
next
  case (Suc n)
  from Suc.prems(2) obtain s1 where nx: "astar_next grid rows cols goal rs s0 = Some s1"
    and it: "astar_iter grid rows cols goal rs n s1 = Some s"
    by (auto split: option.splits)
  from Suc.IH [OF chain_inv_next [OF Suc.prems(1) nx] it] show ?case .
qed

lemma astar_next_closed:
  assumes "astar_next grid rows cols goal rs s = Some s'"
  shows "(popped_cell s \<in> closed_set s \<longrightarrow> s' = pop_heap s) \<and>
         (popped_cell s \<notin> closed_set s \<longrightarrow> closed_set s' = insert (popped_cell s) (closed_set s))"
proof (cases "popped_cell s \<in> closed_set s")
  case True
  with assms show ?thesis by (auto simp: astar_next_def split: if_splits)
next
  case False
  with assms have ra: "relax_all grid rows cols goal (popped_cell s) DIRS
        (close_cell rs (popped_cell s) (pop_heap s)) = Inr s'"
    by (auto simp: astar_next_def split: if_splits sum.splits)
  from relax_all_frame [OF ra] False show ?thesis
    by (simp add: close_cell_fields pop_heap_fields)
qed

lemma relax_push:
  assumes "relax grid rows cols goal cur d s = Inr s'"
  shows "s' = s \<or>
     (\<exists>nb tg. open_heap s' = heappush (open_heap s) (tg + manhattan nb goal, tg, nb) \<and>
        g_score s' = (g_score s)(nb \<mapsto> tg) \<and>
        (\<forall>gn. g_score s nb = Some gn \<longrightarrow> tg < gn))"
  using relax_cases [OF assms] by (fastforce simp: improve_def)


section \<open>Recording steps does not change the search\<close>

lemma relax_steps:
  "relax grid rows cols goal cur d (s\<lparr>steps := x\<rparr>) =
   map_sum id (\<lambda>t. t\<lparr>steps := x\<rparr>) (relax grid rows cols goal cur d s)"
  by (simp add: relax_def Let_def split: sum.splits option.splits)

lemma relax_all_steps:
  "relax_all grid rows cols goal cur ds (s\<lparr>steps := x\<rparr>) =
   map_sum id (\<lambda>t. t\<lparr>steps := x\<rparr>) (relax_all grid rows cols goal cur ds s)"
proof (induction ds arbitrary: s)
  case Nil
  then show ?case by simp
next
  case (Cons d ds)
  show ?case
    by (cases "relax grid rows cols goal cur d s") (simp_all add: relax_steps Cons.IH)
qed

lemma pop_heap_steps: "pop_heap (s\<lparr>steps := x\<rparr>) = (pop_heap s)\<lparr>steps := x\<rparr>"
  by (simp add: pop_heap_def)

lemma popped_cell_steps: "popped_cell (s\<lparr>steps := x\<rparr>) = popped_cell s"
  by (simp add: popped_cell_def)

lemma close_cell_steps:
  "close_cell rs' c (s\<lparr>steps := x\<rparr>) =
   (close_cell rs c s)\<lparr>steps :=
      (if rs' then x @ [\<lparr>snap_current = c, snap_open = open_set s - {c},
                           snap_closed = insert c (closed_set s), snap_g = g_score s\<rparr>]
       else x)\<rparr>"
  by (simp add: close_cell_def Let_def)

lemma finish_steps:
  "outcome (finish start c (s\<lparr>steps := x\<rparr>)) = outcome (finish start c s)"
  by (simp add: finish_def outcome_def split: option.splits sum.splits)

lemma astar_loop_steps:
  "outcome (astar_loop grid rows cols start goal rs' (s\<lparr>steps := x\<rparr>)) =
   outcome (astar_loop grid rows cols start goal rs s)"
proof (induction s arbitrary: x rule: astar_next_induct [where grid = grid and rows = rows
        and cols = cols and goal = goal and rs = rs])
  case (step s)
  show ?case
  proof (cases "open_heap s = []")
    case True
    then show ?thesis
      by (subst (1 2) astar_loop_unfold) simp
  next
    case ne: False
    show ?thesis
    proof (cases "popped_cell s \<in> closed_set s")
      case True
      with ne have nx: "astar_next grid rows cols goal rs s = Some (pop_heap s)"
        by (simp add: astar_next_def)
      from step [OF nx] True ne show ?thesis
        by (subst (1 2) astar_loop_unfold) (simp add: popped_cell_steps pop_heap_steps)
    next
      case nc: False
      note y = close_cell_steps [where rs' = rs' and s = "pop_heap s" and x = x and rs = rs]
      show ?thesis
      proof (cases "popped_cell s = goal")
        case True
        with ne nc y show ?thesis
          by (subst (1 2) astar_loop_unfold)
             (simp add: popped_cell_steps pop_heap_steps finish_steps)
      next
        case ng: False
        show ?thesis
        proof (cases "relax_all grid rows cols goal (popped_cell s) DIRS
            (close_cell rs (popped_cell s) (pop_heap s))")
          case (Inl e)
          with ne nc ng y show ?thesis
            by (subst (1 2) astar_loop_unfold)
               (simp add: popped_cell_steps pop_heap_steps relax_all_steps outcome_def)
        next
          case (Inr s4)
          with ne nc ng have nx: "astar_next grid rows cols goal rs s = Some s4"
            by (simp add: astar_next_def)
          from step [OF nx] Inr ne nc ng y show ?thesis
            by (subst (1 2) astar_loop_unfold)
               (simp add: popped_cell_steps pop_heap_steps relax_all_steps)
        qed
      qed
    qed
  qed
qed


section \<open>Keys of the heap entries\<close>

lemma keys_inv_init: "keys_inv goal (astar_init start goal)"
  by (simp add: keys_inv_def astar_init_def heappush_def)

lemma keys_inv_relax:
  assumes "keys_inv goal s" "relax grid rows cols goal cur d s = Inr s'"
  shows "keys_inv goal s'"
  using relax_cases [OF assms(2)] assms(1)
  by (auto simp: keys_inv_def improve_fields)

lemma keys_inv_relax_all:
  assumes "keys_inv goal s" "relax_all grid rows cols goal cur ds s = Inr s'"
  shows "keys_inv goal s'"
  using assms
proof (induction ds arbitrary: s)
  case Nil
  then show ?case by simp
next
  case (Cons d ds)
  from Cons.prems(2) obtain s1 where r: "relax grid rows cols goal cur d s = Inr s1"
    and ra: "relax_all grid rows cols goal cur ds s1 = Inr s'"
    by (auto split: sum.splits)
  from Cons.IH [OF keys_inv_relax [OF Cons.prems(1) r] ra] show ?case .
qed

lemma keys_inv_pop: "keys_inv goal s \<Longrightarrow> keys_inv goal (pop_heap s)"
  using heappop_set_subset [of "open_heap s"]
  by (auto simp: keys_inv_def pop_heap_fields)

lemma keys_inv_close: "keys_inv goal s \<Longrightarrow> keys_inv goal (close_cell rs c s)"
  by (simp add: keys_inv_def close_cell_fields)

lemma keys_inv_next:
  assumes "keys_inv goal s" "astar_next grid rows cols goal rs s = Some s'"
  shows "keys_inv goal s'"
proof (cases "popped_cell s \<in> closed_set s")
  case True
  with assms show ?thesis
    by (auto simp: astar_next_def keys_inv_pop split: if_splits)
next
  case False
  with assms(2) have ra: "relax_all grid rows cols goal (popped_cell s) DIRS
        (close_cell rs (popped_cell s) (pop_heap s)) = Inr s'"
    by (auto simp: astar_next_def split: if_splits sum.splits)
  have "keys_inv goal (close_cell rs (popped_cell s) (pop_heap s))"
    using assms(1) by (intro keys_inv_close keys_inv_pop)
  from keys_inv_relax_all [OF this ra] show ?thesis .
qed

lemma astar_iter_keys_inv:
  "keys_inv goal s0 \<Longrightarrow> astar_iter grid rows cols goal rs n s0 = Some s \<Longrightarrow> keys_inv goal s"
proof (induction n arbitrary: s0)
  case 0
  then show ?case by simp
next
  case (Suc n)
  from Suc.prems(2) obtain s1 where nx: "astar_next grid rows cols goal rs s0 = Some s1"
    and it: "astar_iter grid rows cols goal rs n s1 = Some s"
    by (auto split: option.splits)
  from Suc.IH [OF keys_inv_next [OF Suc.prems(1) nx] it] show ?case .
qed


section \<open>Rectangular grids and the initial state\<close>

lemma rect_dims:
  "rectangular grid \<Longrightarrow> grid_dims grid = Inr (int (length grid), int (length (hd grid)))"
  by (cases grid) (simp_all add: rectangular_def grid_dims_def py_index_def)

lemma rect_in_bounds:
  assumes "rectangular grid"
  shows "in_bounds grid p \<longleftrightarrow>
    0 \<le> fst p \<and> fst p < int (length grid) \<and> 0 \<le> snd p \<and> snd p < int (length (hd grid))"
proof (cases "0 \<le> fst p \<and> fst p < int (length grid)")
  case True
  then have "nat (fst p) < length grid" by linarith
  then have "grid ! nat (fst p) \<in> set grid" by (rule nth_mem)
  with assms have "length (grid ! nat (fst p)) = length (hd grid)"
    unfolding rectangular_def by blast
  then show ?thesis unfolding in_bounds_def using True by presburger
next
  case False
  then show ?thesis unfolding in_bounds_def by blast
qed

lemma grid_get_in_bounds:
  "in_bounds grid p \<Longrightarrow> grid_get grid p = Inr (tile_at grid p)"
  using grid_get_nonneg [of p grid "tile_at grid p"] by (simp add: in_bounds_def)

lemma relax_rect:
  assumes rect: "rectangular grid"
    and dims: "rows = int (length grid)" "cols = int (length (hd grid))"
    and gc: "g_score s cur = Some gc"
  shows "relax grid rows cols goal cur d s =
     Inr (if passable grid (fst cur + fst d, snd cur + snd d) \<and>
            (\<forall>gn. g_score s (fst cur + fst d, snd cur + snd d) = Some gn \<longrightarrow>
               gc + entry_cost grid (fst cur + fst d, snd cur + snd d) < gn)
          then improve goal cur (fst cur + fst d, snd cur + snd d)
                 (gc + entry_cost grid (fst cur + fst d, snd cur + snd d)) s
          else s)"
proof -
  let ?nb = "(fst cur + fst d, snd cur + snd d)"
  show ?thesis
  proof (cases "in_bounds grid ?nb")
    case False
    with rect_in_bounds [OF rect, of ?nb] dims show ?thesis
      by (auto simp: relax_def Let_def passable_def)
  next
    case True
    note ib = True
    from rect_in_bounds [OF rect, of ?nb] ib dims
    have bnd: "0 \<le> fst cur + fst d \<and> fst cur + fst d < rows \<and>
        0 \<le> snd cur + snd d \<and> snd cur + snd d < cols" by simp
    from grid_get_in_bounds [OF ib] have gg: "grid_get grid ?nb = Inr (tile_at grid ?nb)" .
    show ?thesis
    proof (cases "tile_at grid ?nb = TILE_WALL")
      case True
      with bnd gg show ?thesis by (simp add: relax_def Let_def passable_def)
    next
      case False
      with ib have p: "passable grid ?nb" by (simp add: passable_def)
      show ?thesis
      proof (cases "g_score s ?nb")
        case None
        with bnd gg False gc p show ?thesis
          by (simp add: relax_def Let_def improve_def entry_cost_def)
      next
        case (Some gn)
        with bnd gg False gc p show ?thesis
          by (simp add: relax_def Let_def improve_def entry_cost_def)
      qed
    qed
  qed
qed

lemma manhattan_step: "adjacent u w \<Longrightarrow> manhattan u goal \<le> 1 + manhattan w goal"
  unfolding adjacent_def manhattan_def by linarith

lemma settled_DIRS:
  "settled grid cur (set DIRS) s \<longleftrightarrow>
     (\<forall>u \<in> closed_set s. \<forall>v. passable grid v \<and> adjacent u v \<longrightarrow> relaxed grid s u v)"
proof
  assume a: "settled grid cur (set DIRS) s"
  show "\<forall>u \<in> closed_set s. \<forall>v. passable grid v \<and> adjacent u v \<longrightarrow> relaxed grid s u v"
  proof (intro ballI allI impI)
    fix u v
    assume u: "u \<in> closed_set s" and pv: "passable grid v \<and> adjacent u v"
    then have "(fst v - fst u, snd v - snd u) \<in> set DIRS" by (simp add: adjacent_DIRS)
    with a u pv show "relaxed grid s u v" unfolding settled_def by blast
  qed
next
  assume "\<forall>u \<in> closed_set s. \<forall>v. passable grid v \<and> adjacent u v \<longrightarrow> relaxed grid s u v"
  then show "settled grid cur (set DIRS) s" unfolding settled_def by blast
qed

lemma search_inv_cur:
  "search_inv grid start goal c (set DIRS) s \<Longrightarrow> search_inv grid start goal c' (set DIRS) s"
  by (simp add: search_inv_def settled_DIRS)

lemma search_inv_init: "search_inv grid start goal c D (astar_init start goal)"
proof -
  have "heap_inv goal (astar_init start goal)"
    by (auto simp: heap_inv_def astar_init_def heappush_def split: if_splits)
  moreover have "closed_opt grid start (astar_init start goal)"
    by (simp add: closed_opt_def astar_init_def)
  moreover have "settled grid c D (astar_init start goal)"
    by (simp add: settled_def astar_init_def)
  moreover have "goal \<notin> closed_set (astar_init start goal)"
    by (simp add: astar_init_def)
  ultimately show ?thesis
    using chain_inv_init [of grid start goal] by (simp add: search_inv_def)
qed

lemma chain_route:
  assumes "chain_inv grid start s" "g_score s v = Some gv"
  shows "\<exists>p. route grid start v p \<and> path_cost grid p \<le> gv"
  using reconstruct_chain [OF assms, of "[]"] by blast

section \<open>Optimality of the search\<close>

lemma search_invD:
  assumes "search_inv grid start goal cur D s"
  shows "chain_inv grid start s"
    and "\<And>e. e \<in> set (open_heap s) \<Longrightarrow>
          fst e = fst (snd e) + manhattan (snd (snd e)) goal \<and>
          (\<exists>gc. g_score s (snd (snd e)) = Some gc \<and> gc \<le> fst (snd e))"
    and "\<And>v gv. g_score s v = Some gv \<Longrightarrow> v \<notin> closed_set s \<Longrightarrow>
          (gv + manhattan v goal, gv, v) \<in> set (open_heap s)"
    and "\<And>u. u \<in> closed_set s \<Longrightarrow> \<exists>gu. g_score s u = Some gu"
    and "\<And>u gu p. u \<in> closed_set s \<Longrightarrow> g_score s u = Some gu \<Longrightarrow> route grid start u p \<Longrightarrow>
          gu \<le> path_cost grid p"
    and "\<And>u v. u \<in> closed_set s \<Longrightarrow> passable grid v \<Longrightarrow> adjacent u v \<Longrightarrow>
          (u = cur \<Longrightarrow> (fst v - fst u, snd v - snd u) \<in> D) \<Longrightarrow> relaxed grid s u v"
    and "goal \<notin> closed_set s"
proof -
  from assms have c: "chain_inv grid start s" and h: "heap_inv goal s"
    and o: "closed_opt grid start s" and t: "settled grid cur D s" and g: "goal \<notin> closed_set s"
    unfolding search_inv_def by blast+
  show "chain_inv grid start s" by (rule c)
  show "goal \<notin> closed_set s" by (rule g)
  show "\<And>e. e \<in> set (open_heap s) \<Longrightarrow>
          fst e = fst (snd e) + manhattan (snd (snd e)) goal \<and>
          (\<exists>gc. g_score s (snd (snd e)) = Some gc \<and> gc \<le> fst (snd e))"
    using h unfolding heap_inv_def by blast
  show "\<And>v gv. g_score s v = Some gv \<Longrightarrow> v \<notin> closed_set s \<Longrightarrow>
          (gv + manhattan v goal, gv, v) \<in> set (open_heap s)"
    using h unfolding heap_inv_def by blast
  show "\<And>u. u \<in> closed_set s \<Longrightarrow> \<exists>gu. g_score s u = Some gu"
    using h unfolding heap_inv_def by blast
  show "\<And>u gu p. u \<in> closed_set s \<Longrightarrow> g_score s u = Some gu \<Longrightarrow> route grid start u p \<Longrightarrow>
          gu \<le> path_cost grid p"
    using o unfolding closed_opt_def by blast
  show "\<And>u v. u \<in> closed_set s \<Longrightarrow> passable grid v \<Longrightarrow> adjacent u v \<Longrightarrow>
          (u = cur \<Longrightarrow> (fst v - fst u, snd v - snd u) \<in> D) \<Longrightarrow> relaxed grid s u v"
    using t unfolding settled_def by blast
qed

lemma search_inv_keep:
  assumes inv: "search_inv grid start goal cur D s"
    and gc: "g_score s cur = Some gc"
    and no: "\<not> (passable grid (fst cur + fst d, snd cur + snd d) \<and>
            (\<forall>gn. g_score s (fst cur + fst d, snd cur + snd d) = Some gn \<longrightarrow>
               gc + entry_cost grid (fst cur + fst d, snd cur + snd d) < gn))"
  shows "search_inv grid start goal cur (insert d D) s"
proof -
  let ?nb = "(fst cur + fst d, snd cur + snd d)"
  note I = search_invD [OF inv]
  have "relaxed grid s u v"
    if u: "u \<in> closed_set s" and pv: "passable grid v" and ad: "adjacent u v"
      and dd: "u = cur \<longrightarrow> (fst v - fst u, snd v - snd u) \<in> insert d D" for u v
  proof (cases "u = cur \<and> (fst v - fst u, snd v - snd u) = d")
    case True
    then have v: "v = ?nb" by (cases v) auto
    with pv no obtain gn where "g_score s ?nb = Some gn"
      and "gn \<le> gc + entry_cost grid ?nb" by (auto simp: not_less)
    with True v gc show ?thesis by (simp add: relaxed_def)
  next
    case False
    with dd have "u = cur \<Longrightarrow> (fst v - fst u, snd v - snd u) \<in> D" by blast
    with I(6) [OF u pv ad] show ?thesis by blast
  qed
  then have "settled grid cur (insert d D) s" unfolding settled_def by blast
  with inv show ?thesis unfolding search_inv_def by blast
qed

lemma search_inv_improve:
  assumes inv: "search_inv grid start goal cur D s"
    and cur: "cur \<in> closed_set s" and d: "d \<in> set DIRS"
    and gc: "g_score s cur = Some gc"
    and nb: "nb = (fst cur + fst d, snd cur + snd d)"
    and p: "passable grid nb"
    and better: "\<forall>gn. g_score s nb = Some gn \<longrightarrow> gc + entry_cost grid nb < gn"
  shows "search_inv grid start goal cur (insert d D)
           (improve goal cur nb (gc + entry_cost grid nb) s)"
proof -
  let ?tg = "gc + entry_cost grid nb"
  let ?s' = "improve goal cur nb ?tg s"
  note I = search_invD [OF inv]
  have adj: "adjacent cur nb" unfolding nb using d by (rule DIRS_adjacent)
  have nbc: "nb \<notin> closed_set s"
  proof
    assume c: "nb \<in> closed_set s"
    from I(4) [OF c] obtain gn where gn: "g_score s nb = Some gn" by blast
    from chain_route [OF I(1) gc] obtain q where q: "route grid start cur q"
      and qc: "path_cost grid q \<le> gc" by blast
    from q have qne: "q \<noteq> []" by (simp add: route_def)
    have "route grid start nb (q @ [nb])" using q adj p by (rule route_snoc)
    from I(5) [OF c gn this] have "gn \<le> path_cost grid q + entry_cost grid nb"
      by (simp add: path_cost_snoc [OF qne])
    with qc better gn show False by auto
  qed
  have cn: "cur \<noteq> nb" using cur nbc by blast
  have ch: "chain_inv grid start ?s'"
    using I(1) p adj gc better by (rule chain_inv_improve)
  have h1: "fst e = fst (snd e) + manhattan (snd (snd e)) goal \<and>
          (\<exists>g'. g_score ?s' (snd (snd e)) = Some g' \<and> g' \<le> fst (snd e))"
    if e: "e \<in> set (open_heap ?s')" for e
  proof (cases "e \<in> set (open_heap s)")
    case True
    from I(2) [OF True] obtain g' where k: "fst e = fst (snd e) + manhattan (snd (snd e)) goal"
      and g': "g_score s (snd (snd e)) = Some g'" and le: "g' \<le> fst (snd e)" by blast
    show ?thesis
    proof (cases "snd (snd e) = nb")
      case True
      with g' better have "?tg < g'" by simp
      with le True k show ?thesis by (simp add: improve_fields)
    next
      case False
      with g' le k show ?thesis by (simp add: improve_fields)
    qed
  next
    case False
    with e have "e = (?tg + manhattan nb goal, ?tg, nb)" by (simp add: improve_fields)
    then show ?thesis by (simp add: improve_fields)
  qed
  have h2: "(gv + manhattan v goal, gv, v) \<in> set (open_heap ?s')"
    if g: "g_score ?s' v = Some gv" and nc: "v \<notin> closed_set ?s'" for v gv
  proof (cases "v = nb")
    case True
    with g show ?thesis by (simp add: improve_fields)
  next
    case False
    with g nc have "g_score s v = Some gv" "v \<notin> closed_set s" by (simp_all add: improve_fields)
    from I(3) [OF this] show ?thesis by (simp add: improve_fields)
  qed
  have h3: "\<exists>gu. g_score ?s' u = Some gu" if "u \<in> closed_set ?s'" for u
    using that I(4) [of u] by (simp add: improve_fields)
  have hp: "heap_inv goal ?s'"
    unfolding heap_inv_def using h1 h2 h3 by blast
  have co: "closed_opt grid start ?s'"
    unfolding closed_opt_def
  proof (intro ballI allI impI)
    fix u gu q
    assume u: "u \<in> closed_set ?s'" and a: "g_score ?s' u = Some gu \<and> route grid start u q"
    from u have uc: "u \<in> closed_set s" by (simp add: improve_fields)
    with nbc have "u \<noteq> nb" by blast
    with a have "g_score s u = Some gu" by (simp add: improve_fields)
    from I(5) [OF uc this] a show "gu \<le> path_cost grid q" by blast
  qed
  have st: "relaxed grid ?s' u v"
    if u: "u \<in> closed_set ?s'" and pv: "passable grid v" and ad: "adjacent u v"
      and dd: "u = cur \<longrightarrow> (fst v - fst u, snd v - snd u) \<in> insert d D" for u v
  proof -
    from u have uc: "u \<in> closed_set s" by (simp add: improve_fields)
    with nbc have un: "u \<noteq> nb" by blast
    from I(4) [OF uc] obtain gu where gu: "g_score s u = Some gu" by blast
    show ?thesis
    proof (cases "v = nb")
      case True
      show ?thesis
      proof (cases "u = cur")
        case True
        with \<open>v = nb\<close> cn gc show ?thesis by (simp add: relaxed_def improve_fields)
      next
        case False
        then have "u = cur \<Longrightarrow> (fst v - fst u, snd v - snd u) \<in> D" by simp
        from I(6) [OF uc pv ad this] obtain gu' gv where "g_score s u = Some gu'"
          and gv: "g_score s v = Some gv" and le: "gv \<le> gu' + entry_cost grid v"
          unfolding relaxed_def by blast
        with gu have le': "gv \<le> gu + entry_cost grid v" by simp
        from gv better True have "?tg < gv" by simp
        with le' True un gu show ?thesis by (simp add: relaxed_def improve_fields)
      qed
    next
      case False
      have "u = cur \<Longrightarrow> (fst v - fst u, snd v - snd u) \<in> D"
      proof -
        assume uc': "u = cur"
        have "(fst v - fst u, snd v - snd u) \<noteq> d"
        proof
          assume "(fst v - fst u, snd v - snd u) = d"
          with uc' have "v = nb" unfolding nb by (cases v) auto
          with False show False by simp
        qed
        with dd uc' show ?thesis by blast
      qed
      from I(6) [OF uc pv ad this] False un show ?thesis
        by (simp add: relaxed_def improve_fields)
    qed
  qed
  have stl: "settled grid cur (insert d D) ?s'"
    unfolding settled_def using st by blast
  have ng: "goal \<notin> closed_set ?s'" using I(7) by (simp add: improve_fields)
  from ch hp co stl ng show ?thesis unfolding search_inv_def by blast
qed

lemma search_inv_relax:
  assumes rect: "rectangular grid"
    and dims: "rows = int (length grid)" "cols = int (length (hd grid))"
    and inv: "search_inv grid start goal cur D s"
    and cur: "cur \<in> closed_set s" and d: "d \<in> set DIRS"
  shows "\<exists>s'. relax grid rows cols goal cur d s = Inr s' \<and>
     search_inv grid start goal cur (insert d D) s' \<and> cur \<in> closed_set s'"
proof -
  let ?nb = "(fst cur + fst d, snd cur + snd d)"
  note I = search_invD [OF inv]
  from I(4) [OF cur] obtain gc where gc: "g_score s cur = Some gc" by blast
  note r = relax_rect [OF rect dims gc, of goal d]
  show ?thesis
  proof (cases "passable grid ?nb \<and>
            (\<forall>gn. g_score s ?nb = Some gn \<longrightarrow> gc + entry_cost grid ?nb < gn)")
    case True
    then have p: "passable grid ?nb"
      and b: "\<forall>gn. g_score s ?nb = Some gn \<longrightarrow> gc + entry_cost grid ?nb < gn" by blast+
    have "relax grid rows cols goal cur d s =
        Inr (improve goal cur ?nb (gc + entry_cost grid ?nb) s)"
      by (rule r [unfolded if_P [OF True]])
    moreover have "cur \<in> closed_set (improve goal cur ?nb (gc + entry_cost grid ?nb) s)"
      using cur by (simp add: improve_fields)
    ultimately show ?thesis
      using search_inv_improve [OF inv cur d gc refl p b] by blast
  next
    case False
    have "relax grid rows cols goal cur d s = Inr s"
      by (rule r [unfolded if_not_P [OF False]])
    with search_inv_keep [OF inv gc False] cur show ?thesis by blast
  qed
qed

lemma search_inv_relax_all:
  assumes rect: "rectangular grid"
    and dims: "rows = int (length grid)" "cols = int (length (hd grid))"
  shows "search_inv grid start goal cur D s \<Longrightarrow> cur \<in> closed_set s \<Longrightarrow> set ds \<subseteq> set DIRS \<Longrightarrow>
    \<exists>s'. relax_all grid rows cols goal cur ds s = Inr s' \<and>
       search_inv grid start goal cur (D \<union> set ds) s'"
proof (induction ds arbitrary: s D)
  case Nil
  then show ?case by simp
next
  case (Cons d ds)
  from Cons.prems(3) have d: "d \<in> set DIRS" and ds: "set ds \<subseteq> set DIRS" by auto
  from search_inv_relax [OF rect dims Cons.prems(1,2) d]
  obtain s1 where r: "relax grid rows cols goal cur d s = Inr s1"
    and i1: "search_inv grid start goal cur (insert d D) s1" and c1: "cur \<in> closed_set s1"
    by blast
  from Cons.IH [OF i1 c1 ds] obtain s' where
    ra: "relax_all grid rows cols goal cur ds s1 = Inr s'"
    and i': "search_inv grid start goal cur (insert d D \<union> set ds) s'" by blast
  have "insert d D \<union> set ds = D \<union> set (d # ds)" by auto
  with r ra i' show ?case by simp
qed

lemma relaxed_g: "g_score s' = g_score s \<Longrightarrow> relaxed grid s' u v = relaxed grid s u v"
  by (simp add: relaxed_def)

lemma frontier:
  assumes inv: "search_inv grid start goal c (set DIRS) s"
  shows "route grid start w p \<Longrightarrow>
     (w \<in> closed_set s \<and> (\<exists>gw. g_score s w = Some gw \<and> gw \<le> path_cost grid p)) \<or>
     (\<exists>x gx. x \<notin> closed_set s \<and> g_score s x = Some gx \<and>
        gx + manhattan x goal \<le> path_cost grid p + manhattan w goal)"
proof (induction p arbitrary: w rule: rev_induct)
  case Nil
  then show ?case by (simp add: route_def)
next
  case (snoc y q)
  note I = search_invD [OF inv]
  from snoc.prems have yw: "y = w" by (simp add: route_def)
  show ?case
  proof (cases "q = []")
    case True
    with snoc.prems yw have ws: "w = start" by (simp add: route_def)
    from I(1) have g0: "g_score s start = Some 0" by (simp add: chain_inv_def)
    have pc: "path_cost grid (q @ [y]) = 0" using True by (simp add: path_cost_def)
    show ?thesis
    proof (cases "start \<in> closed_set s")
      case True
      with ws g0 pc show ?thesis by simp
    next
      case False
      with ws g0 pc have "start \<notin> closed_set s \<and> g_score s start = Some 0 \<and>
        0 + manhattan start goal \<le> path_cost grid (q @ [y]) + manhattan w goal" by simp
      then show ?thesis by blast
    qed
  next
    case False
    note qne = False
    from route_snocE [OF snoc.prems [unfolded yw] qne]
    have rq: "route grid start (last q) q" and ad: "adjacent (last q) w"
      and pw: "passable grid w" by blast+
    have pc: "path_cost grid (q @ [y]) = path_cost grid q + entry_cost grid w"
      using qne yw by (simp add: path_cost_snoc)
    from snoc.IH [OF rq] show ?thesis
    proof
      assume a: "last q \<in> closed_set s \<and> (\<exists>gw. g_score s (last q) = Some gw \<and> gw \<le> path_cost grid q)"
      then obtain gu where uc: "last q \<in> closed_set s" and gu: "g_score s (last q) = Some gu"
        and le: "gu \<le> path_cost grid q" by blast
      have "last q = c \<Longrightarrow> (fst w - fst (last q), snd w - snd (last q)) \<in> set DIRS"
        using ad by (simp add: adjacent_DIRS)
      from I(6) [OF uc pw ad this] gu obtain gw where gw: "g_score s w = Some gw"
        and le2: "gw \<le> gu + entry_cost grid w" unfolding relaxed_def by auto
      from le le2 pc have le3: "gw \<le> path_cost grid (q @ [y])" by simp
      show ?thesis
      proof (cases "w \<in> closed_set s")
        case True
        with gw le3 show ?thesis by blast
      next
        case False
        with gw le3 have "w \<notin> closed_set s \<and> g_score s w = Some gw \<and>
          gw + manhattan w goal \<le> path_cost grid (q @ [y]) + manhattan w goal" by simp
        then show ?thesis by blast
      qed
    next
      assume "\<exists>x gx. x \<notin> closed_set s \<and> g_score s x = Some gx \<and>
        gx + manhattan x goal \<le> path_cost grid q + manhattan (last q) goal"
      then obtain x gx where x: "x \<notin> closed_set s" and gx: "g_score s x = Some gx"
        and le: "gx + manhattan x goal \<le> path_cost grid q + manhattan (last q) goal" by blast
      from manhattan_step [OF ad, of goal] entry_cost_pos [of grid w] le pc
      have "gx + manhattan x goal \<le> path_cost grid (q @ [y]) + manhattan w goal" by linarith
      with x gx show ?thesis by blast
    qed
  qed
qed

lemma popped_entry:
  assumes "open_heap s \<noteq> []"
  shows "fst (heappop (open_heap s)) \<in> set (open_heap s)"
    and "snd (snd (fst (heappop (open_heap s)))) = popped_cell s"
  using heappop_fst_in [OF assms] by (simp_all add: popped_cell_def)

lemma entry_le_fst: "(e :: entry) \<le> e' \<Longrightarrow> fst e \<le> fst e'"
  by (auto simp: less_eq_prod_def)

lemma pop_optimal:
  assumes inv: "search_inv grid start goal c (set DIRS) s"
    and ne: "open_heap s \<noteq> []" and nc: "popped_cell s \<notin> closed_set s"
    and gv: "g_score s (popped_cell s) = Some gv"
    and rt: "route grid start (popped_cell s) p"
  shows "gv \<le> path_cost grid p"
proof -
  note I = search_invD [OF inv]
  let ?e = "fst (heappop (open_heap s))"
  let ?v = "popped_cell s"
  from I(2) [OF popped_entry(1) [OF ne]] popped_entry(2) [OF ne] gv
  have k: "gv + manhattan ?v goal \<le> fst ?e" by auto
  from frontier [OF inv rt] nc obtain x gx where x: "x \<notin> closed_set s"
    and gx: "g_score s x = Some gx"
    and le: "gx + manhattan x goal \<le> path_cost grid p + manhattan ?v goal" by blast
  from I(3) [OF gx x] have "(gx + manhattan x goal, gx, x) \<in> set (open_heap s)" .
  from entry_le_fst [OF heappop_fst_le [OF this]] have "fst ?e \<le> gx + manhattan x goal" by simp
  with k le show ?thesis by linarith
qed

lemma search_inv_pop_closed:
  assumes inv: "search_inv grid start goal c (set DIRS) s"
    and ne: "open_heap s \<noteq> []" and cl: "popped_cell s \<in> closed_set s"
  shows "search_inv grid start goal c (set DIRS) (pop_heap s)"
proof -
  note I = search_invD [OF inv]
  have ch: "chain_inv grid start (pop_heap s)" using I(1) by (rule chain_inv_pop)
  have h1: "fst e = fst (snd e) + manhattan (snd (snd e)) goal \<and>
          (\<exists>g'. g_score (pop_heap s) (snd (snd e)) = Some g' \<and> g' \<le> fst (snd e))"
    if "e \<in> set (open_heap (pop_heap s))" for e
    using that heappop_set_subset [of "open_heap s"] I(2) [of e]
    by (auto simp: pop_heap_fields)
  have h2: "(gv + manhattan v goal, gv, v) \<in> set (open_heap (pop_heap s))"
    if g: "g_score (pop_heap s) v = Some gv" and nc: "v \<notin> closed_set (pop_heap s)" for v gv
  proof -
    from g nc have g': "g_score s v = Some gv" and nc': "v \<notin> closed_set s"
      by (simp_all add: pop_heap_fields)
    from I(3) [OF g' nc'] have m: "(gv + manhattan v goal, gv, v) \<in> set (open_heap s)" .
    have "(gv + manhattan v goal, gv, v) \<noteq> fst (heappop (open_heap s))"
    proof
      assume eq: "(gv + manhattan v goal, gv, v) = fst (heappop (open_heap s))"
      from arg_cong [OF eq, of "\<lambda>e. snd (snd e)"] popped_entry(2) [OF ne]
      have "v = popped_cell s" by simp
      with cl nc' show False by simp
    qed
    from heappop_set_other [OF m this] show ?thesis by (simp add: pop_heap_fields)
  qed
  have h3: "\<exists>gu. g_score (pop_heap s) u = Some gu" if "u \<in> closed_set (pop_heap s)" for u
    using that I(4) [of u] by (simp add: pop_heap_fields)
  have hp: "heap_inv goal (pop_heap s)" unfolding heap_inv_def using h1 h2 h3 by blast
  have co: "closed_opt grid start (pop_heap s)"
    using I(5) unfolding closed_opt_def by (auto simp: pop_heap_fields)
  have "relaxed grid (pop_heap s) u v"
    if "u \<in> closed_set (pop_heap s)" "passable grid v" "adjacent u v" for u v
  proof -
    have "u = c \<Longrightarrow> (fst v - fst u, snd v - snd u) \<in> set DIRS"
      using that(3) by (simp add: adjacent_DIRS)
    from I(6) [OF _ that(2,3) this] that(1) show ?thesis
      by (simp add: pop_heap_fields relaxed_g [of "pop_heap s" s])
  qed
  then have st: "settled grid c (set DIRS) (pop_heap s)" unfolding settled_def by blast
  have ng: "goal \<notin> closed_set (pop_heap s)" using I(7) by (simp add: pop_heap_fields)
  from ch hp co st ng show ?thesis unfolding search_inv_def by blast
qed

lemma search_inv_close:
  assumes inv: "search_inv grid start goal c (set DIRS) s"
    and ne: "open_heap s \<noteq> []" and nc: "popped_cell s \<notin> closed_set s"
    and ng: "popped_cell s \<noteq> goal"
  shows "search_inv grid start goal (popped_cell s) {} (close_cell rs (popped_cell s) (pop_heap s))"
proof -
  note I = search_invD [OF inv]
  let ?v = "popped_cell s"
  let ?s3 = "close_cell rs ?v (pop_heap s)"
  have F: "g_score ?s3 = g_score s" "closed_set ?s3 = insert ?v (closed_set s)"
    "open_heap ?s3 = snd (heappop (open_heap s))"
    by (simp_all add: close_cell_fields pop_heap_fields)
  from I(2) [OF popped_entry(1) [OF ne]] popped_entry(2) [OF ne]
  obtain gv where gv: "g_score s ?v = Some gv" by auto
  have ch: "chain_inv grid start ?s3" using I(1) by (intro chain_inv_close chain_inv_pop)
  have h1: "fst e = fst (snd e) + manhattan (snd (snd e)) goal \<and>
          (\<exists>g'. g_score ?s3 (snd (snd e)) = Some g' \<and> g' \<le> fst (snd e))"
    if "e \<in> set (open_heap ?s3)" for e
    using that heappop_set_subset [of "open_heap s"] I(2) [of e]
    by (auto simp: F)
  have h2: "(gw + manhattan w goal, gw, w) \<in> set (open_heap ?s3)"
    if g: "g_score ?s3 w = Some gw" and nc': "w \<notin> closed_set ?s3" for w gw
  proof -
    from g nc' have g': "g_score s w = Some gw" and ncw: "w \<notin> closed_set s" and wv: "w \<noteq> ?v"
      by (simp_all add: F)
    from I(3) [OF g' ncw] have m: "(gw + manhattan w goal, gw, w) \<in> set (open_heap s)" .
    have "(gw + manhattan w goal, gw, w) \<noteq> fst (heappop (open_heap s))"
    proof
      assume eq: "(gw + manhattan w goal, gw, w) = fst (heappop (open_heap s))"
      from arg_cong [OF eq, of "\<lambda>e. snd (snd e)"] popped_entry(2) [OF ne]
      have "w = popped_cell s" by simp
      with wv show False by simp
    qed
    from heappop_set_other [OF m this] show ?thesis by (simp add: F)
  qed
  have h3: "\<exists>gu. g_score ?s3 u = Some gu" if "u \<in> closed_set ?s3" for u
    using that I(4) [of u] gv by (auto simp: F)
  have hp: "heap_inv goal ?s3" unfolding heap_inv_def using h1 h2 h3 by blast
  have co: "closed_opt grid start ?s3"
    unfolding closed_opt_def
  proof (intro ballI allI impI)
    fix u gu q
    assume u: "u \<in> closed_set ?s3" and a: "g_score ?s3 u = Some gu \<and> route grid start u q"
    then have gu: "g_score s u = Some gu" and rq: "route grid start u q" by (simp_all add: F)
    show "gu \<le> path_cost grid q"
    proof (cases "u = ?v")
      case True
      from pop_optimal [OF inv ne nc gu [unfolded True] rq [unfolded True]] show ?thesis .
    next
      case False
      with u have "u \<in> closed_set s" by (simp add: F)
      from I(5) [OF this gu rq] show ?thesis .
    qed
  qed
  have "relaxed grid ?s3 u w"
    if u: "u \<in> closed_set ?s3" and pw: "passable grid w" and ad: "adjacent u w"
      and dd: "u = ?v \<longrightarrow> (fst w - fst u, snd w - snd u) \<in> {}" for u w
  proof -
    from dd have "u \<noteq> ?v" by auto
    with u have uc: "u \<in> closed_set s" by (simp add: F)
    have "u = c \<Longrightarrow> (fst w - fst u, snd w - snd u) \<in> set DIRS"
      using ad by (simp add: adjacent_DIRS)
    from I(6) [OF uc pw ad this] show ?thesis
      by (simp add: relaxed_g [of ?s3 s] F)
  qed
  then have st: "settled grid ?v {} ?s3" unfolding settled_def by blast
  have g: "goal \<notin> closed_set ?s3" using I(7) ng by (auto simp: F)
  from ch hp co st g show ?thesis unfolding search_inv_def by blast
qed

lemma loop_finds:
  assumes rect: "rectangular grid"
    and dims: "rows = int (length grid)" "cols = int (length (hd grid))"
  shows "search_inv grid start goal c (set DIRS) s \<Longrightarrow> route grid start goal q \<Longrightarrow>
    \<exists>res. astar_loop grid rows cols start goal rs s = Some (Inr (Some res)) \<and>
       route grid start goal (res_path res) \<and>
       (\<forall>q'. route grid start goal q' \<longrightarrow> path_cost grid (res_path res) \<le> path_cost grid q')"
proof (induction s rule: astar_next_induct [where grid = grid and rows = rows and cols = cols
        and goal = goal and rs = rs])
  case (step s)
  note inv = step.prems(1) and rq = step.prems(2)
  note I = search_invD [OF inv]
  have ne: "open_heap s \<noteq> []"
  proof
    assume e: "open_heap s = []"
    from frontier [OF inv rq] I(7) obtain x gx where "x \<notin> closed_set s" "g_score s x = Some gx"
      by blast
    from I(3) [OF this(2,1)] e show False by simp
  qed
  show ?case
  proof (cases "popped_cell s \<in> closed_set s")
    case True
    with ne have nx: "astar_next grid rows cols goal rs s = Some (pop_heap s)"
      by (simp add: astar_next_def)
    from step.IH [OF nx search_inv_pop_closed [OF inv ne True] rq]
      astar_loop_next [OF nx, of start]
    show ?thesis by simp
  next
    case nc: False
    let ?s3 = "close_cell rs (popped_cell s) (pop_heap s)"
    show ?thesis
    proof (cases "popped_cell s = goal")
      case True
      from I(2) [OF popped_entry(1) [OF ne]] popped_entry(2) [OF ne] True
      obtain gg where gg: "g_score s goal = Some gg" by auto
      have inv3: "chain_inv grid start (close_cell rs goal (pop_heap s))"
        using I(1) by (intro chain_inv_close chain_inv_pop)
      have gg3: "g_score (close_cell rs goal (pop_heap s)) goal = Some gg"
        using gg by (simp add: close_cell_fields pop_heap_fields)
      from finish_chain [OF inv3 gg3]
      obtain p where fin: "finish start goal (close_cell rs goal (pop_heap s)) =
           Some (Inr (Some \<lparr>res_path = p,
              res_expanded = card (closed_set (close_cell rs goal (pop_heap s))),
              res_steps = steps (close_cell rs goal (pop_heap s))\<rparr>))"
        and rp: "route grid start goal p" and pc: "path_cost grid p \<le> gg" by blast
      have opt: "path_cost grid p \<le> path_cost grid q'" if "route grid start goal q'" for q'
        using pop_optimal [OF inv ne nc gg [folded True] that [folded True]] pc by simp
      have "astar_loop grid rows cols start goal rs s =
          finish start goal (close_cell rs goal (pop_heap s))"
        using ne nc True by (subst astar_loop_unfold) simp
      with fin rp opt show ?thesis by auto
    next
      case ng: False
      have i3: "search_inv grid start goal (popped_cell s) {} ?s3"
        using inv ne nc ng by (rule search_inv_close)
      have c3: "popped_cell s \<in> closed_set ?s3" by (simp add: close_cell_fields)
      from search_inv_relax_all [OF rect dims i3 c3 subset_refl]
      obtain s4 where ra: "relax_all grid rows cols goal (popped_cell s) DIRS ?s3 = Inr s4"
        and i4: "search_inv grid start goal (popped_cell s) ({} \<union> set DIRS) s4" by blast
      from i4 have i4': "search_inv grid start goal c (set DIRS) s4"
        by (simp add: search_inv_cur)
      from ne nc ng ra have nx: "astar_next grid rows cols goal rs s = Some s4"
        by (simp add: astar_next_def)
      from step.IH [OF nx i4' rq] astar_loop_next [OF nx, of start]
      show ?thesis by simp
    qed
  qed
qed

lemma loop_exhausts:
  assumes rect: "rectangular grid"
    and dims: "rows = int (length grid)" "cols = int (length (hd grid))"
    and nr: "\<And>q. \<not> route grid start goal q"
  shows "search_inv grid start goal c (set DIRS) s \<Longrightarrow>
    astar_loop grid rows cols start goal rs s = Some (Inr None)"
proof (induction s rule: astar_next_induct [where grid = grid and rows = rows and cols = cols
        and goal = goal and rs = rs])
  case (step s)
  note inv = step.prems(1)
  note I = search_invD [OF inv]
  show ?case
  proof (cases "open_heap s = []")
    case True
    then show ?thesis by (subst astar_loop_unfold) simp
  next
    case ne: False
    show ?thesis
    proof (cases "popped_cell s \<in> closed_set s")
      case True
      with ne have nx: "astar_next grid rows cols goal rs s = Some (pop_heap s)"
        by (simp add: astar_next_def)
      from step.IH [OF nx search_inv_pop_closed [OF inv ne True]]
        astar_loop_next [OF nx, of start]
      show ?thesis by simp
    next
      case nc: False
      let ?s3 = "close_cell rs (popped_cell s) (pop_heap s)"
      have ng: "popped_cell s \<noteq> goal"
      proof
        assume g: "popped_cell s = goal"
        from I(2) [OF popped_entry(1) [OF ne]] popped_entry(2) [OF ne] g
        obtain gg where "g_score s goal = Some gg" by auto
        from chain_route [OF I(1) this] nr show False by blast
      qed
      have i3: "search_inv grid start goal (popped_cell s) {} ?s3"
        using inv ne nc ng by (rule search_inv_close)
      have c3: "popped_cell s \<in> closed_set ?s3" by (simp add: close_cell_fields)
      from search_inv_relax_all [OF rect dims i3 c3 subset_refl]
      obtain s4 where ra: "relax_all grid rows cols goal (popped_cell s) DIRS ?s3 = Inr s4"
        and i4: "search_inv grid start goal (popped_cell s) ({} \<union> set DIRS) s4" by blast
      from i4 have i4': "search_inv grid start goal c (set DIRS) s4"
        by (simp add: search_inv_cur)
      from ne nc ng ra have nx: "astar_next grid rows cols goal rs s = Some s4"
        by (simp add: astar_next_def)
      from step.IH [OF nx i4'] astar_loop_next [OF nx, of start]
      show ?thesis by simp
    qed
  qed
qed

lemma solve_finds:
  assumes rect: "rectangular grid" and rq: "route grid start goal q"
  shows "\<exists>res. astar grid start goal rs = Some (Inr (Some res)) \<and>
       route grid start goal (res_path res) \<and>
       (\<forall>q'. route grid start goal q' \<longrightarrow> path_cost grid (res_path res) \<le> path_cost grid q')"
  using loop_finds [OF rect refl refl search_inv_init rq, where rs = rs]
  by (simp add: astar_def rect_dims [OF rect])

lemma solve_exhausts:
  assumes rect: "rectangular grid" and nr: "\<And>q. \<not> route grid start goal q"
  shows "astar grid start goal rs = Some (Inr None)"
  using loop_exhausts [OF rect refl refl nr search_inv_init, where rs = rs]
  by (simp add: astar_def rect_dims [OF rect])

lemma valid_path_route:
  "valid_path grid start goal p \<longleftrightarrow> route grid start goal p \<and> passable grid start"
proof (cases p)
  case Nil
  then show ?thesis by (simp add: valid_path_def route_def)
next
  case (Cons a list)
  then show ?thesis by (auto simp: valid_path_def route_def)
qed


section \<open>Routes and costs\<close>

lemma path_cost_lower: "int (length (tl p)) \<le> path_cost grid p"
proof -
  have "int (length xs) \<le> sum_list (map (entry_cost grid) xs)" for xs
  proof (induction xs)
    case Nil
    then show ?case by simp
  next
    case (Cons x xs)
    with entry_cost_pos [of grid x] show ?case by simp
  qed
  then show ?thesis unfolding path_cost_def by blast
qed

lemma route_goal_passable:
  assumes "route grid start goal p" "start \<noteq> goal"
  shows "passable grid goal"
proof -
  from assms obtain a rest where p: "p = a # rest" and a: "a = start"
    by (cases p) (auto simp: route_def)
  with assms have "rest \<noteq> []" by (auto simp: route_def)
  with assms p have "goal \<in> set (tl p)" by (auto simp: route_def)
  with assms show ?thesis by (simp add: route_def)
qed

section \<open>Grid generation follows the rule of the specification\<close>

lemma spec_tile_kind: "fst (spec_tile R wp mp rng) \<in> {TILE_NORMAL, TILE_WALL, TILE_MUD}"
  by (simp add: spec_tile_def Let_def)

lemma fill_cell_spec:
  assumes "r < length grid" "c < length (grid ! r)" "grid ! r ! c = TILE_NORMAL"
  shows "fill_cell R wp mp r c (grid, rng) =
    (grid[r := (grid ! r)[c := fst (spec_tile R wp mp rng)]], snd (spec_tile R wp mp rng))"
proof -
  have "grid[r := (grid ! r)[c := TILE_NORMAL]] = grid"
    using assms by (metis list_update_id)
  then show ?thesis
    by (simp add: fill_cell_def spec_tile_def Let_def split: prod.splits)
qed

lemma length_spec_tiles: "length (fst (spec_tiles R wp mp n rng)) = n"
  by (induction n arbitrary: rng) (simp_all add: Let_def)

lemma spec_tiles_kind: "t \<in> set (fst (spec_tiles R wp mp n rng)) \<Longrightarrow>
    t \<in> {TILE_NORMAL, TILE_WALL, TILE_MUD}"
proof (induction n arbitrary: rng)
  case 0
  then show ?case by simp
next
  case (Suc n)
  from Suc.prems have "t = fst (spec_tile R wp mp rng) \<or>
      t \<in> set (fst (spec_tiles R wp mp n (snd (spec_tile R wp mp rng))))"
    by (simp add: Let_def)
  with Suc.IH spec_tile_kind [of R wp mp rng] show ?case by blast
qed

lemma spec_tiles_add:
  "spec_tiles R wp mp (a + b) rng =
     (fst (spec_tiles R wp mp a rng) @ fst (spec_tiles R wp mp b (snd (spec_tiles R wp mp a rng))),
      snd (spec_tiles R wp mp b (snd (spec_tiles R wp mp a rng))))"
  by (induction a arbitrary: rng) (simp_all add: Let_def)

lemma spec_tiles_Suc_snoc:
  "spec_tiles R wp mp (Suc n) rng =
     (fst (spec_tiles R wp mp n rng) @ [fst (spec_tile R wp mp (snd (spec_tiles R wp mp n rng)))],
      snd (spec_tile R wp mp (snd (spec_tiles R wp mp n rng))))"
  using spec_tiles_add [of R wp mp n 1 rng] by (simp add: Let_def)

lemma fill_row:
  assumes r: "r < length grid"
    and normal: "\<forall>c < length (grid ! r). grid ! r ! c = TILE_NORMAL"
  shows "n \<le> length (grid ! r) \<Longrightarrow>
    fold (fill_cell R wp mp r) [0..<n] (grid, rng) =
      (grid[r := fst (spec_tiles R wp mp n rng) @ drop n (grid ! r)],
       snd (spec_tiles R wp mp n rng))"
proof (induction n)
  case 0
  then show ?case by simp
next
  case (Suc n)
  let ?ts = "fst (spec_tiles R wp mp n rng)"
  let ?rng = "snd (spec_tiles R wp mp n rng)"
  let ?row = "grid ! r"
  let ?g = "grid[r := ?ts @ drop n ?row]"
  from Suc.prems have n: "n < length ?row" by simp
  have lt: "length ?ts = n" by (rule length_spec_tiles)
  have gr: "?g ! r = ?ts @ drop n ?row" using r by simp
  have a: "r < length ?g" using r by simp
  have b: "n < length (?g ! r)" using n lt by (simp add: gr)
  have c: "?g ! r ! n = TILE_NORMAL"
    using n lt normal by (simp add: gr nth_append)
  have d: "drop n ?row = ?row ! n # drop (Suc n) ?row"
    using n by (simp add: Cons_nth_drop_Suc)
  have upd: "(?ts @ drop n ?row)[n := t] = (?ts @ [t]) @ drop (Suc n) ?row" for t
    using lt by (simp add: list_update_append d)
  have "fold (fill_cell R wp mp r) [0..<Suc n] (grid, rng) =
      fill_cell R wp mp r n (fold (fill_cell R wp mp r) [0..<n] (grid, rng))"
    by simp
  also have "\<dots> = fill_cell R wp mp r n (?g, ?rng)"
    using Suc.IH n by simp
  also have "\<dots> = (?g[r := (?g ! r)[n := fst (spec_tile R wp mp ?rng)]],
      snd (spec_tile R wp mp ?rng))"
    using a b c by (rule fill_cell_spec)
  also have "\<dots> = (grid[r := fst (spec_tiles R wp mp (Suc n) rng) @ drop (Suc n) ?row],
       snd (spec_tiles R wp mp (Suc n) rng))"
    by (simp add: gr upd spec_tiles_Suc_snoc del: spec_tiles.simps)
  finally show ?case .
qed

lemma fill_rows:
  fixes C Rn :: nat
  shows "m \<le> Rn \<Longrightarrow>
    \<exists>G. fold (\<lambda>r. fold (fill_cell R wp mp r) [0..<C]) [0..<m] (replicate Rn (replicate C TILE_NORMAL), rng0) =
          (G @ replicate (Rn - m) (replicate C TILE_NORMAL), snd (spec_tiles R wp mp (m * C) rng0)) \<and>
        length G = m \<and> (\<forall>row \<in> set G. length row = C) \<and>
        concat G = fst (spec_tiles R wp mp (m * C) rng0)"
proof (induction m)
  case 0
  then show ?case by simp
next
  case (Suc m)
  then obtain G where
    f: "fold (\<lambda>r. fold (fill_cell R wp mp r) [0..<C]) [0..<m] (replicate Rn (replicate C TILE_NORMAL), rng0) =
          (G @ replicate (Rn - m) (replicate C TILE_NORMAL), snd (spec_tiles R wp mp (m * C) rng0))"
    and lG: "length G = m" and rG: "\<forall>row \<in> set G. length row = C"
    and cG: "concat G = fst (spec_tiles R wp mp (m * C) rng0)" by auto
  let ?rng = "snd (spec_tiles R wp mp (m * C) rng0)"
  let ?grid = "G @ replicate (Rn - m) (replicate C TILE_NORMAL)"
  let ?ts = "fst (spec_tiles R wp mp C ?rng)"
  from Suc.prems have m: "m < Rn" by simp
  then have rep: "replicate (Rn - m) (replicate C TILE_NORMAL) = (replicate C TILE_NORMAL) # replicate (Rn - Suc m) (replicate C TILE_NORMAL)"
    by (cases "Rn - m") (simp_all add: Suc_diff_Suc)
  have gm: "?grid ! m = (replicate C TILE_NORMAL)" using lG by (simp add: rep nth_append)
  have a: "m < length ?grid" using lG m by simp
  have b: "\<forall>c < length (?grid ! m). ?grid ! m ! c = TILE_NORMAL"
    unfolding gm by simp
  have c: "C \<le> length (?grid ! m)" unfolding gm by simp
  have dr: "drop C (?grid ! m) = []" unfolding gm by simp
  have lts: "length ?ts = C" by (rule length_spec_tiles)
  have upd: "?grid[m := ?ts] = (G @ [?ts]) @ replicate (Rn - Suc m) (replicate C TILE_NORMAL)"
    using lG by (simp add: rep list_update_append)
  have st: "spec_tiles R wp mp (Suc m * C) rng0 =
      (fst (spec_tiles R wp mp (m * C) rng0) @ ?ts, snd (spec_tiles R wp mp C ?rng))"
    using spec_tiles_add [of R wp mp "m * C" C rng0] by (simp add: add.commute)
  have "fold (\<lambda>r. fold (fill_cell R wp mp r) [0..<C]) [0..<Suc m] (replicate Rn (replicate C TILE_NORMAL), rng0) =
      fold (fill_cell R wp mp m) [0..<C] (?grid, ?rng)"
    by (simp add: f)
  also have "\<dots> = (?grid[m := ?ts @ drop C (?grid ! m)], snd (spec_tiles R wp mp C ?rng))"
    using a b c by (rule fill_row)
  also have "\<dots> = ((G @ [?ts]) @ replicate (Rn - Suc m) (replicate C TILE_NORMAL),
      snd (spec_tiles R wp mp (Suc m * C) rng0))"
    by (simp only: dr append_Nil2 upd st snd_conv)
  finally have 1: "fold (\<lambda>r. fold (fill_cell R wp mp r) [0..<C]) [0..<Suc m]
      (replicate Rn (replicate C TILE_NORMAL), rng0) =
      ((G @ [?ts]) @ replicate (Rn - Suc m) (replicate C TILE_NORMAL), snd (spec_tiles R wp mp (Suc m * C) rng0))" .
  have 2: "length (G @ [?ts]) = Suc m" using lG by simp
  have 3: "\<forall>row \<in> set (G @ [?ts]). length row = C" using rG lts by auto
  have 4: "concat (G @ [?ts]) = fst (spec_tiles R wp mp (Suc m * C) rng0)"
    using cG by (simp only: st fst_conv) simp
  from 1 2 3 4 show ?case by blast
qed

lemma generate_grid_spec:
  fixes rows cols :: int and seed :: "int option" and rng :: 'r and R :: "'r random_module"
  defines "rng0 \<equiv> (case seed of None \<Rightarrow> rng | Some n \<Rightarrow> seed_fn R n)"
  shows "length (fst (generate_grid R rows cols wp mp seed rng)) = nat rows \<and>
     (\<forall>row \<in> set (fst (generate_grid R rows cols wp mp seed rng)). length row = nat cols) \<and>
     concat (fst (generate_grid R rows cols wp mp seed rng)) =
       fst (spec_tiles R wp mp (nat rows * nat cols) rng0) \<and>
     snd (generate_grid R rows cols wp mp seed rng) =
       snd (spec_tiles R wp mp (nat rows * nat cols) rng0)"
proof -
  let ?tiles = "spec_tiles R wp mp (nat rows * nat cols) rng0"
  from fill_rows [of "nat rows" "nat rows" R wp mp "nat cols" rng0]
  obtain G where f: "fold (\<lambda>r. fold (fill_cell R wp mp r) [0..<nat cols]) [0..<nat rows]
        (replicate (nat rows) (replicate (nat cols) TILE_NORMAL), rng0) =
          (G, snd ?tiles)"
    and lG: "length G = nat rows" and rG: "\<forall>row \<in> set G. length row = nat cols"
    and cG: "concat G = fst ?tiles"
    by auto
  have "generate_grid R rows cols wp mp seed rng = (G, snd ?tiles)"
    unfolding generate_grid_def Let_def rng0_def [symmetric] by (rule f)
  with lG rG cG show ?thesis by simp
qed

lemma generate_grid_kind:
  assumes "row \<in> set (fst (generate_grid R rows cols wp mp seed rng))" "t \<in> set row"
  shows "t \<in> {TILE_NORMAL, TILE_WALL, TILE_MUD}"
proof -
  from assms have "t \<in> set (concat (fst (generate_grid R rows cols wp mp seed rng)))" by auto
  then show ?thesis
    using generate_grid_spec [of R rows cols wp mp seed rng] spec_tiles_kind by metis
qed

section \<open>Placement\<close>

lemma random_empty_cell_loop_non_wall:
  assumes "random_empty_cell_loop R grid rows cols rng = Some y"
  shows "\<forall>p rng'. y = Inr (p, rng') \<longrightarrow>
      non_wall grid p \<and> (randrange_ok R \<longrightarrow> 0 \<le> fst p \<and> 0 \<le> snd p)"
proof (rule random_empty_cell_loop.raw_induct [where P = "\<lambda>R grid rows cols rng y.
    \<forall>p rng'. y = Inr (p, rng') \<longrightarrow>
      non_wall grid p \<and> (randrange_ok R \<longrightarrow> 0 \<le> fst p \<and> 0 \<le> snd p)", OF _ assms])
  fix loop :: "'a random_module \<Rightarrow> grid \<Rightarrow> int \<Rightarrow> int \<Rightarrow> 'a \<Rightarrow> (error + (cell \<times> 'a)) option"
  fix R grid rows cols rng y
  assume IH: "\<And>R grid rows cols rng y. loop R grid rows cols rng = Some y \<Longrightarrow>
      \<forall>p rng'. y = Inr (p, rng') \<longrightarrow>
        non_wall grid p \<and> (randrange_ok R \<longrightarrow> 0 \<le> fst p \<and> 0 \<le> snd p)"
  assume body: "(case py_randrange R rows rng of
        Inl e \<Rightarrow> Some (Inl e)
      | Inr (r, rng1) \<Rightarrow>
          (case py_randrange R cols rng1 of
             Inl e \<Rightarrow> Some (Inl e)
           | Inr (c, rng2) \<Rightarrow>
               (case grid_get grid (r, c) of
                  Inl e \<Rightarrow> Some (Inl e)
                | Inr t \<Rightarrow>
                    if t \<noteq> TILE_WALL then Some (Inr ((r, c), rng2))
                    else loop R grid rows cols rng2))) = Some y"
  show "\<forall>p rng'. y = Inr (p, rng') \<longrightarrow>
      non_wall grid p \<and> (randrange_ok R \<longrightarrow> 0 \<le> fst p \<and> 0 \<le> snd p)"
  proof (intro allI impI)
    fix p rng'
    assume y: "y = Inr (p, rng')"
    from body y obtain r rng1 c rng2 t where
      a: "py_randrange R rows rng = Inr (r, rng1)"
      and b: "py_randrange R cols rng1 = Inr (c, rng2)"
      and g: "grid_get grid (r, c) = Inr t"
      and rest: "(if t \<noteq> TILE_WALL then Some (Inr ((r, c), rng2))
                 else loop R grid rows cols rng2) = Some (Inr (p, rng'))"
      by (auto split: sum.splits prod.splits)
    show "non_wall grid p \<and> (randrange_ok R \<longrightarrow> 0 \<le> fst p \<and> 0 \<le> snd p)"
    proof (cases "t \<noteq> TILE_WALL")
      case True
      with rest have p: "p = (r, c)" by simp
      from a have "0 < rows" "r = fst (randrange_fn R rows rng)"
        by (auto simp: py_randrange_def split: if_splits)
      moreover from b have "0 < cols" "c = fst (randrange_fn R cols rng1)"
        by (auto simp: py_randrange_def split: if_splits)
      ultimately have "randrange_ok R \<longrightarrow> 0 \<le> r \<and> 0 \<le> c"
        by (simp add: randrange_ok_def)
      with p g True show ?thesis by (simp add: non_wall_def)
    next
      case False
      with rest have "loop R grid rows cols rng2 = Some (Inr (p, rng'))" by simp
      from IH [OF this] show ?thesis by blast
    qed
  qed
qed

lemma random_empty_cell_non_wall:
  assumes "random_empty_cell R grid rng = Some (Inr (p, rng'))"
  shows "non_wall grid p \<and> (randrange_ok R \<longrightarrow> passable grid p)"
proof -
  from assms obtain rows cols where
    "random_empty_cell_loop R grid rows cols rng = Some (Inr (p, rng'))"
    by (auto simp: random_empty_cell_def split: sum.splits)
  from random_empty_cell_loop_non_wall [OF this]
  have nw: "non_wall grid p" and nn: "randrange_ok R \<longrightarrow> 0 \<le> fst p \<and> 0 \<le> snd p" by blast+
  have "passable grid p" if "randrange_ok R"
  proof -
    from nn that have n: "0 \<le> fst p" "0 \<le> snd p" by blast+
    from nw obtain t where "grid_get grid p = Inr t" "t \<noteq> TILE_WALL"
      by (auto simp: non_wall_def split: sum.splits)
    with grid_get_nonneg [OF n, of grid t] show ?thesis by (simp add: passable_def)
  qed
  with nw show ?thesis by blast
qed

lemma place_loop_result:
  assumes "place_loop R rows cols wp mp mx grid tries rng = Some y"
  shows "\<forall>g s t rng'. y = Inr ((g, s, t), rng') \<longrightarrow>
      s \<noteq> t \<and> non_wall g s \<and> non_wall g t \<and> ensure_reachable g s t = Some (Inr True) \<and>
      (randrange_ok R \<longrightarrow> passable g s \<and> passable g t)"
proof (rule place_loop.raw_induct [where P = "\<lambda>R rows cols wp mp mx grid tries rng y.
    \<forall>g s t rng'. y = Inr ((g, s, t), rng') \<longrightarrow>
      s \<noteq> t \<and> non_wall g s \<and> non_wall g t \<and> ensure_reachable g s t = Some (Inr True) \<and>
      (randrange_ok R \<longrightarrow> passable g s \<and> passable g t)", OF _ assms])
  fix loop :: "'a random_module \<Rightarrow> int \<Rightarrow> int \<Rightarrow> real \<Rightarrow> real \<Rightarrow> int \<Rightarrow> grid \<Rightarrow> int \<Rightarrow> 'a
      \<Rightarrow> (error + (grid \<times> cell \<times> cell) \<times> 'a) option"
  fix R rows cols wp mp mx grid tries rng y
  assume IH: "\<And>R rows cols wp mp mx grid tries rng y.
      loop R rows cols wp mp mx grid tries rng = Some y \<Longrightarrow>
      \<forall>g s t rng'. y = Inr ((g, s, t), rng') \<longrightarrow>
        s \<noteq> t \<and> non_wall g s \<and> non_wall g t \<and> ensure_reachable g s t = Some (Inr True) \<and>
        (randrange_ok R \<longrightarrow> passable g s \<and> passable g t)"
  assume body: "(case random_empty_cell R grid rng of
        None \<Rightarrow> None
      | Some (Inl e) \<Rightarrow> Some (Inl e)
      | Some (Inr (start, rng1)) \<Rightarrow>
          (case random_empty_cell R grid rng1 of
             None \<Rightarrow> None
           | Some (Inl e) \<Rightarrow> Some (Inl e)
           | Some (Inr (goal, rng2)) \<Rightarrow>
               if start = goal then
                 (if tries + 1 > mx
                  then
                    loop R rows cols wp mp mx
                      (fst (generate_grid R rows cols wp mp None rng2)) 0
                      (snd (generate_grid R rows cols wp mp None rng2))
                  else loop R rows cols wp mp mx grid (tries + 1) rng2)
               else
                 (case ensure_reachable grid start goal of
                    None \<Rightarrow> None
                  | Some (Inl e) \<Rightarrow> Some (Inl e)
                  | Some (Inr reachable) \<Rightarrow>
                      if reachable then Some (Inr ((grid, start, goal), rng2))
                      else
                        (if tries + 1 > mx
                         then
                           loop R rows cols wp mp mx
                             (fst (generate_grid R rows cols wp mp None rng2)) 0
                             (snd (generate_grid R rows cols wp mp None rng2))
                         else loop R rows cols wp mp mx grid (tries + 1) rng2)))) = Some y"
  show "\<forall>g s t rng'. y = Inr ((g, s, t), rng') \<longrightarrow>
      s \<noteq> t \<and> non_wall g s \<and> non_wall g t \<and> ensure_reachable g s t = Some (Inr True) \<and>
      (randrange_ok R \<longrightarrow> passable g s \<and> passable g t)"
  proof (intro allI impI)
    fix g s t rng'
    assume y: "y = Inr ((g, s, t), rng')"
    obtain start rng1 where a: "random_empty_cell R grid rng = Some (Inr (start, rng1))"
    proof (cases "random_empty_cell R grid rng")
      case None
      with body show ?thesis by simp
    next
      case (Some x)
      show ?thesis
      proof (cases x)
        case (Inl e)
        with Some body y show ?thesis by simp
      next
        case (Inr pr)
        with Some that show ?thesis by (cases pr) simp
      qed
    qed
    obtain goal rng2 where b: "random_empty_cell R grid rng1 = Some (Inr (goal, rng2))"
    proof (cases "random_empty_cell R grid rng1")
      case None
      with body a show ?thesis by simp
    next
      case (Some x)
      show ?thesis
      proof (cases x)
        case (Inl e)
        with Some body a y show ?thesis by simp
      next
        case (Inr pr)
        with Some that show ?thesis by (cases pr) simp
      qed
    qed
    note A = random_empty_cell_non_wall [OF a] and B = random_empty_cell_non_wall [OF b]
    let ?again = "if tries + 1 > mx
                  then
                    loop R rows cols wp mp mx
                      (fst (generate_grid R rows cols wp mp None rng2)) 0
                      (snd (generate_grid R rows cols wp mp None rng2))
                  else loop R rows cols wp mp mx grid (tries + 1) rng2"
    have again: "s \<noteq> t \<and> non_wall g s \<and> non_wall g t \<and>
        ensure_reachable g s t = Some (Inr True) \<and>
        (randrange_ok R \<longrightarrow> passable g s \<and> passable g t)" if ag: "?again = Some y"
    proof (cases "tries + 1 > mx")
      case True
      with ag have "loop R rows cols wp mp mx
          (fst (generate_grid R rows cols wp mp None rng2)) 0
          (snd (generate_grid R rows cols wp mp None rng2)) = Some y" by simp
      from IH [OF this] y show ?thesis by blast
    next
      case False
      with ag have "loop R rows cols wp mp mx grid (tries + 1) rng2 = Some y" by simp
      from IH [OF this] y show ?thesis by blast
    qed
    show "s \<noteq> t \<and> non_wall g s \<and> non_wall g t \<and> ensure_reachable g s t = Some (Inr True) \<and>
      (randrange_ok R \<longrightarrow> passable g s \<and> passable g t)"
    proof (cases "start = goal")
      case True
      with body a b have "?again = Some y" by simp
      from again [OF this] show ?thesis .
    next
      case False
      obtain reachable where e: "ensure_reachable grid start goal = Some (Inr reachable)"
      proof (cases "ensure_reachable grid start goal")
        case None
        with body a b False show ?thesis by simp
      next
        case (Some x)
        show ?thesis
        proof (cases x)
          case (Inl err)
          with Some body a b False y show ?thesis by simp
        next
          case (Inr r)
          with Some that show ?thesis by simp
        qed
      qed
      show ?thesis
      proof (cases reachable)
        case True
        with body a b e False y have "g = grid" "s = start" "t = goal" by simp_all
        with A B e True False show ?thesis by simp
      next
        case nr: False
        with body a b e False have "?again = Some y" by simp
        from again [OF this] show ?thesis .
      qed
    qed
  qed
qed

section \<open>The breadth-first search only reaches connected cells\<close>

lemma bfs_visit_sound:
  assumes v: "bfs_visit grid rows cols cur d (q, seen) = Inr (q', seen')"
    and d: "d \<in> set DIRS"
    and cur: "\<exists>p. route grid src cur p"
    and q: "\<forall>c \<in> set q. \<exists>p. route grid src c p"
  shows "\<forall>c \<in> set q'. \<exists>p. route grid src c p"
proof (cases "q' = q")
  case True
  with q show ?thesis by simp
next
  case False
  let ?nb = "(fst cur + fst d, snd cur + snd d)"
  from v False obtain t where b: "0 \<le> fst ?nb" "0 \<le> snd ?nb"
    and g: "grid_get grid ?nb = Inr t" and t: "t \<noteq> TILE_WALL" and q': "q' = q @ [?nb]"
    by (auto simp: bfs_visit_def Let_def split: if_splits sum.splits)
  from grid_get_nonneg [OF b, of grid t] g t have p: "passable grid ?nb"
    by (simp add: passable_def)
  from cur obtain pth where "route grid src cur pth" by blast
  from route_snoc [OF this DIRS_adjacent [OF d] p] have "\<exists>p. route grid src ?nb p" by blast
  with q q' show ?thesis by auto
qed

lemma bfs_visit_all_sound:
  assumes "bfs_visit_all grid rows cols cur ds (q, seen) = Inr (q', seen')"
    and "set ds \<subseteq> set DIRS"
    and "\<exists>p. route grid src cur p"
    and "\<forall>c \<in> set q. \<exists>p. route grid src c p"
  shows "\<forall>c \<in> set q'. \<exists>p. route grid src c p"
  using assms
proof (induction ds arbitrary: q seen)
  case Nil
  then show ?case by simp
next
  case (Cons d ds)
  from Cons.prems(1) obtain q1 seen1 where
    a: "bfs_visit grid rows cols cur d (q, seen) = Inr (q1, seen1)"
    and b: "bfs_visit_all grid rows cols cur ds (q1, seen1) = Inr (q', seen')"
    by (auto split: sum.splits)
  from Cons.prems(2) have d: "d \<in> set DIRS" and ds: "set ds \<subseteq> set DIRS" by auto
  from bfs_visit_sound [OF a d Cons.prems(3,4)]
  have "\<forall>c \<in> set q1. \<exists>p. route grid src c p" .
  from Cons.IH [OF b ds Cons.prems(3) this] show ?case .
qed

lemma ensure_reachable_loop_sound:
  assumes "ensure_reachable_loop grid rows cols goal q seen = Some y"
  shows "\<forall>src. (\<forall>c \<in> set q. \<exists>p. route grid src c p) \<longrightarrow> y = Inr True \<longrightarrow>
      (\<exists>p. route grid src goal p)"
proof (rule ensure_reachable_loop.raw_induct [where P = "\<lambda>grid rows cols goal q seen y.
    \<forall>src. (\<forall>c \<in> set q. \<exists>p. route grid src c p) \<longrightarrow> y = Inr True \<longrightarrow>
      (\<exists>p. route grid src goal p)", OF _ assms])
  fix loop :: "grid \<Rightarrow> int \<Rightarrow> int \<Rightarrow> cell \<Rightarrow> cell list \<Rightarrow> cell set \<Rightarrow> (error + bool) option"
  fix grid rows cols goal q seen y
  assume IH: "\<And>grid rows cols goal q seen y. loop grid rows cols goal q seen = Some y \<Longrightarrow>
      \<forall>src. (\<forall>c \<in> set q. \<exists>p. route grid src c p) \<longrightarrow> y = Inr True \<longrightarrow>
        (\<exists>p. route grid src goal p)"
  assume body: "(case q of
        [] \<Rightarrow> Some (Inr False)
      | cur # q' \<Rightarrow>
          if cur = goal then Some (Inr True)
          else
            (case bfs_visit_all grid rows cols cur [(1, 0), (- 1, 0), (0, 1), (0, - 1)] (q', seen) of
               Inl e \<Rightarrow> Some (Inl e)
             | Inr (q'', seen') \<Rightarrow> loop grid rows cols goal q'' seen')) = Some y"
  show "\<forall>src. (\<forall>c \<in> set q. \<exists>p. route grid src c p) \<longrightarrow> y = Inr True \<longrightarrow>
      (\<exists>p. route grid src goal p)"
  proof (intro allI impI)
    fix src
    assume rq: "\<forall>c \<in> set q. \<exists>p. route grid src c p" and y: "y = Inr True"
    show "\<exists>p. route grid src goal p"
    proof (cases q)
      case Nil
      with body y show ?thesis by simp
    next
      case (Cons cur q')
      show ?thesis
      proof (cases "cur = goal")
        case True
        with rq Cons show ?thesis by simp
      next
        case False
        from rq Cons have rc: "\<exists>p. route grid src cur p"
          and rq': "\<forall>c \<in> set q'. \<exists>p. route grid src c p" by simp_all
        show ?thesis
        proof (cases "bfs_visit_all grid rows cols cur [(1, 0), (- 1, 0), (0, 1), (0, - 1)] (q', seen)")
          case (Inl e)
          with body Cons False y show ?thesis by simp
        next
          case (Inr st)
          obtain q'' seen' where st: "st = (q'', seen')" by (cases st)
          with Inr body Cons False have l: "loop grid rows cols goal q'' seen' = Some y" by simp
          from Inr st have "bfs_visit_all grid rows cols cur DIRS (q', seen) = Inr (q'', seen')"
            by (simp add: DIRS_def)
          from bfs_visit_all_sound [OF this subset_refl rc rq']
          have "\<forall>c \<in> set q''. \<exists>p. route grid src c p" .
          with IH [OF l] y show ?thesis by blast
        qed
      qed
    qed
  qed
qed

lemma ensure_reachable_sound:
  assumes "ensure_reachable grid start goal = Some (Inr True)"
  shows "\<exists>p. route grid start goal p"
proof -
  from assms obtain rows cols where
    "ensure_reachable_loop grid rows cols goal [start] {start} = Some (Inr True)"
    by (auto simp: ensure_reachable_def split: sum.splits)
  from ensure_reachable_loop_sound [OF this]
  have "(\<forall>c \<in> set [start]. \<exists>p. route grid start c p) \<longrightarrow> (\<exists>p. route grid start goal p)"
    by blast
  moreover have "\<forall>c \<in> set [start]. \<exists>p. route grid start c p"
    using route_single [of grid start] by auto
  ultimately show ?thesis by blast
qed

section \<open>The heap invariant on every grid\<close>

lemma heap_invD:
  assumes "heap_inv goal s"
  shows "\<And>e. e \<in> set (open_heap s) \<Longrightarrow>
          fst e = fst (snd e) + manhattan (snd (snd e)) goal \<and>
          (\<exists>gc. g_score s (snd (snd e)) = Some gc \<and> gc \<le> fst (snd e))"
    and "\<And>v gv. g_score s v = Some gv \<Longrightarrow> v \<notin> closed_set s \<Longrightarrow>
          (gv + manhattan v goal, gv, v) \<in> set (open_heap s)"
    and "\<And>u. u \<in> closed_set s \<Longrightarrow> \<exists>gu. g_score s u = Some gu"
  using assms unfolding heap_inv_def by blast+

lemma heap_inv_init: "heap_inv goal (astar_init start goal)"
  by (auto simp: heap_inv_def astar_init_def heappush_def split: if_splits)

lemma heap_inv_improve:
  assumes inv: "heap_inv goal s"
    and better: "\<forall>gn. g_score s nb = Some gn \<longrightarrow> tg < gn"
  shows "heap_inv goal (improve goal cur nb tg s)"
proof -
  let ?s' = "improve goal cur nb tg s"
  note I = heap_invD [OF inv]
  have h1: "fst e = fst (snd e) + manhattan (snd (snd e)) goal \<and>
          (\<exists>g'. g_score ?s' (snd (snd e)) = Some g' \<and> g' \<le> fst (snd e))"
    if e: "e \<in> set (open_heap ?s')" for e
  proof (cases "e \<in> set (open_heap s)")
    case True
    from I(1) [OF True] obtain g' where k: "fst e = fst (snd e) + manhattan (snd (snd e)) goal"
      and g': "g_score s (snd (snd e)) = Some g'" and le: "g' \<le> fst (snd e)" by blast
    show ?thesis
    proof (cases "snd (snd e) = nb")
      case True
      with g' better have "tg < g'" by simp
      with le True k show ?thesis by (simp add: improve_fields)
    next
      case False
      with g' le k show ?thesis by (simp add: improve_fields)
    qed
  next
    case False
    with e have "e = (tg + manhattan nb goal, tg, nb)" by (simp add: improve_fields)
    then show ?thesis by (simp add: improve_fields)
  qed
  have h2: "(gv + manhattan v goal, gv, v) \<in> set (open_heap ?s')"
    if g: "g_score ?s' v = Some gv" and nc: "v \<notin> closed_set ?s'" for v gv
  proof (cases "v = nb")
    case True
    with g show ?thesis by (simp add: improve_fields)
  next
    case False
    with g nc have "g_score s v = Some gv" "v \<notin> closed_set s" by (simp_all add: improve_fields)
    from I(2) [OF this] show ?thesis by (simp add: improve_fields)
  qed
  have h3: "\<exists>gu. g_score ?s' u = Some gu" if "u \<in> closed_set ?s'" for u
    using that I(3) [of u] by (simp add: improve_fields)
  show ?thesis unfolding heap_inv_def using h1 h2 h3 by blast
qed

lemma heap_inv_relax:
  assumes "heap_inv goal s" "relax grid rows cols goal cur d s = Inr s'"
  shows "heap_inv goal s'"
  using relax_cases [OF assms(2)] assms(1) by (auto intro: heap_inv_improve)

lemma heap_inv_relax_all:
  assumes "heap_inv goal s" "relax_all grid rows cols goal cur ds s = Inr s'"
  shows "heap_inv goal s'"
  using assms
proof (induction ds arbitrary: s)
  case Nil
  then show ?case by simp
next
  case (Cons d ds)
  from Cons.prems(2) obtain s1 where r: "relax grid rows cols goal cur d s = Inr s1"
    and ra: "relax_all grid rows cols goal cur ds s1 = Inr s'"
    by (auto split: sum.splits)
  from Cons.IH [OF heap_inv_relax [OF Cons.prems(1) r] ra] show ?case .
qed

lemma heap_inv_pop_close:
  assumes inv: "heap_inv goal s" and ne: "open_heap s \<noteq> []"
    and cl: "closed_set s' = insert (popped_cell s) (closed_set s)"
    and g: "g_score s' = g_score s"
    and h: "open_heap s' = snd (heappop (open_heap s))"
  shows "heap_inv goal s'"
proof -
  note I = heap_invD [OF inv]
  from I(1) [OF popped_entry(1) [OF ne]] popped_entry(2) [OF ne]
  obtain gp where gp: "g_score s (popped_cell s) = Some gp" by auto
  have h1: "fst e = fst (snd e) + manhattan (snd (snd e)) goal \<and>
          (\<exists>g'. g_score s' (snd (snd e)) = Some g' \<and> g' \<le> fst (snd e))"
    if "e \<in> set (open_heap s')" for e
    using that heappop_set_subset [of "open_heap s"] I(1) [of e] by (auto simp: g h)
  have h2: "(gw + manhattan w goal, gw, w) \<in> set (open_heap s')"
    if gw: "g_score s' w = Some gw" and nc: "w \<notin> closed_set s'" for w gw
  proof -
    from gw nc have g': "g_score s w = Some gw" and ncw: "w \<notin> closed_set s"
      and wv: "w \<noteq> popped_cell s" by (simp_all add: g cl)
    from I(2) [OF g' ncw] have m: "(gw + manhattan w goal, gw, w) \<in> set (open_heap s)" .
    have "(gw + manhattan w goal, gw, w) \<noteq> fst (heappop (open_heap s))"
    proof
      assume eq: "(gw + manhattan w goal, gw, w) = fst (heappop (open_heap s))"
      from arg_cong [OF eq, of "\<lambda>e. snd (snd e)"] popped_entry(2) [OF ne]
      have "w = popped_cell s" by simp
      with wv show False by simp
    qed
    from heappop_set_other [OF m this] show ?thesis by (simp add: h)
  qed
  have h3: "\<exists>gu. g_score s' u = Some gu" if "u \<in> closed_set s'" for u
    using that I(3) [of u] gp by (auto simp: g cl)
  show ?thesis unfolding heap_inv_def using h1 h2 h3 by blast
qed

lemma heap_inv_next:
  assumes inv: "heap_inv goal s" and nx: "astar_next grid rows cols goal rs s = Some s'"
  shows "heap_inv goal s'"
proof -
  from nx have ne: "open_heap s \<noteq> []" by (auto simp: astar_next_def split: if_splits)
  show ?thesis
  proof (cases "popped_cell s \<in> closed_set s")
    case True
    with nx ne have s': "s' = pop_heap s" by (simp add: astar_next_def)
    have "closed_set s' = insert (popped_cell s) (closed_set s)"
      using True by (auto simp: s' pop_heap_fields)
    with inv ne show ?thesis
      by (rule heap_inv_pop_close) (simp_all add: s' pop_heap_fields)
  next
    case False
    with nx ne have ra: "relax_all grid rows cols goal (popped_cell s) DIRS
        (close_cell rs (popped_cell s) (pop_heap s)) = Inr s'"
      by (auto simp: astar_next_def split: if_splits sum.splits)
    have "heap_inv goal (close_cell rs (popped_cell s) (pop_heap s))"
      using inv ne by (rule heap_inv_pop_close) (simp_all add: close_cell_fields pop_heap_fields)
    from heap_inv_relax_all [OF this ra] show ?thesis .
  qed
qed

lemma astar_iter_heap_inv:
  "heap_inv goal s0 \<Longrightarrow> astar_iter grid rows cols goal rs n s0 = Some s \<Longrightarrow> heap_inv goal s"
proof (induction n arbitrary: s0)
  case 0
  then show ?case by simp
next
  case (Suc n)
  from Suc.prems(2) obtain s1 where nx: "astar_next grid rows cols goal rs s0 = Some s1"
    and it: "astar_iter grid rows cols goal rs n s1 = Some s"
    by (auto split: option.splits)
  from Suc.IH [OF heap_inv_next [OF Suc.prems(1) nx] it] show ?case .
qed

lemma astar_loop_iter:
  "astar_iter grid rows cols goal rs n s0 = Some s \<Longrightarrow>
   astar_loop grid rows cols start goal rs s0 = astar_loop grid rows cols start goal rs s"
proof (induction n arbitrary: s0)
  case 0
  then show ?case by simp
next
  case (Suc n)
  from Suc.prems obtain s1 where nx: "astar_next grid rows cols goal rs s0 = Some s1"
    and it: "astar_iter grid rows cols goal rs n s1 = Some s"
    by (auto split: option.splits)
  from astar_loop_next [OF nx, of start] Suc.IH [OF it] show ?case by simp
qed

lemma entry_le_key:
  assumes "((f, g, c) :: entry) \<le> (f', g', c')"
  shows "f < f' \<or> (f = f' \<and> g \<le> g')"
  using assms by (auto simp: less_eq_prod_def)

lemma pop_least:
  assumes inv: "heap_inv goal s" and ne: "open_heap s \<noteq> []"
    and pop: "heappop (open_heap s) = ((f, g, c), h')"
  shows "f = g + manhattan c goal"
    and "c \<notin> closed_set s \<Longrightarrow> g_score s c = Some g"
    and "\<And>v gv. g_score s v = Some gv \<Longrightarrow> v \<notin> closed_set s \<Longrightarrow>
          f < gv + manhattan v goal \<or> (f = gv + manhattan v goal \<and> g \<le> gv)"
proof -
  note I = heap_invD [OF inv]
  have m: "(f, g, c) \<in> set (open_heap s)"
    using heappop_fst_in [OF ne] pop by simp
  from I(1) [OF m] obtain gc where k: "f = g + manhattan c goal"
    and gc: "g_score s c = Some gc" and le: "gc \<le> g" by auto
  show "f = g + manhattan c goal" by (rule k)
  have least: "f < gv + manhattan v goal \<or> (f = gv + manhattan v goal \<and> g \<le> gv)"
    if "g_score s v = Some gv" "v \<notin> closed_set s" for v gv
  proof -
    from I(2) [OF that] have "(gv + manhattan v goal, gv, v) \<in> set (open_heap s)" .
    from heappop_fst_le [OF this] pop have "(f, g, c) \<le> (gv + manhattan v goal, gv, v)" by simp
    then show ?thesis by (rule entry_le_key)
  qed
  then show "\<And>v gv. g_score s v = Some gv \<Longrightarrow> v \<notin> closed_set s \<Longrightarrow>
          f < gv + manhattan v goal \<or> (f = gv + manhattan v goal \<and> g \<le> gv)" .
  show "g_score s c = Some g" if "c \<notin> closed_set s"
  proof -
    from least [OF gc that] k le have "g = gc" by auto
    with gc show ?thesis by simp
  qed
qed

section \<open>Recorded steps expand a least key\<close>

lemma close_cell_steps_field:
  "steps (close_cell rs c s1) =
     (if rs then steps s1 @
        [\<lparr>snap_current = c, snap_open = open_set s1 - {c},
          snap_closed = insert c (closed_set s1), snap_g = g_score s1\<rparr>]
      else steps s1)"
  by (simp add: close_cell_def Let_def)

lemma finish_steps_field:
  "finish start goal s = Some (Inr (Some r)) \<Longrightarrow> res_steps r = steps s"
  by (auto simp: finish_def split: option.splits sum.splits)

lemma snapshot_least:
  assumes inv: "heap_inv goal s" and ne: "open_heap s \<noteq> []"
    and nc: "popped_cell s \<notin> closed_set s"
  shows "expanded_least goal
     \<lparr>snap_current = popped_cell s, snap_open = open_set s - {popped_cell s},
       snap_closed = insert (popped_cell s) (closed_set s), snap_g = g_score s\<rparr>"
proof -
  obtain f g c h' where pop: "heappop (open_heap s) = ((f, g, c), h')"
    by (metis prod.exhaust)
  then have c: "popped_cell s = c" by (simp add: popped_cell_def)
  note L = pop_least [OF inv ne pop]
  from L(2) nc c have gc: "g_score s c = Some g" by simp
  have "g + manhattan c goal < gv + manhattan v goal \<or>
      (g + manhattan c goal = gv + manhattan v goal \<and> g \<le> gv)"
    if "g_score s v = Some gv" "v \<notin> insert c (closed_set s)" for v gv
    using L(3) [of v gv] that L(1) by auto
  with gc show ?thesis unfolding expanded_least_def c by auto
qed

lemma astar_loop_trace:
  "heap_inv goal s \<Longrightarrow> (\<forall>sn \<in> set (steps s). expanded_least goal sn) \<Longrightarrow>
   astar_loop grid rows cols start goal rs s = Some (Inr (Some r)) \<Longrightarrow>
   \<forall>sn \<in> set (res_steps r). expanded_least goal sn"
proof (induction s rule: astar_next_induct [where grid = grid and rows = rows and cols = cols
        and goal = goal and rs = rs])
  case (step s)
  note inv = step.prems(1) and tr = step.prems(2) and res = step.prems(3)
  have ne: "open_heap s \<noteq> []"
  proof
    assume "open_heap s = []"
    then have "astar_loop grid rows cols start goal rs s = Some (Inr None)"
      by (subst astar_loop_unfold) simp
    with res show False by simp
  qed
  show ?case
  proof (cases "popped_cell s \<in> closed_set s")
    case True
    with ne have nx: "astar_next grid rows cols goal rs s = Some (pop_heap s)"
      by (simp add: astar_next_def)
    have tr': "\<forall>sn \<in> set (steps (pop_heap s)). expanded_least goal sn"
      using tr by (simp add: pop_heap_fields)
    have res': "astar_loop grid rows cols start goal rs (pop_heap s) = Some (Inr (Some r))"
      using astar_loop_next [OF nx, of start] res by simp
    from step.IH [OF nx heap_inv_next [OF inv nx] tr' res'] show ?thesis .
  next
    case nc: False
    let ?s3 = "close_cell rs (popped_cell s) (pop_heap s)"
    have tr3: "\<forall>sn \<in> set (steps ?s3). expanded_least goal sn"
      using tr snapshot_least [OF inv ne nc]
      by (auto simp: close_cell_steps_field pop_heap_def)
    show ?thesis
    proof (cases "popped_cell s = goal")
      case True
      have "astar_loop grid rows cols start goal rs s =
          finish start goal (close_cell rs goal (pop_heap s))"
        using ne nc True by (subst astar_loop_unfold) simp
      with res have "finish start goal (close_cell rs goal (pop_heap s)) = Some (Inr (Some r))"
        by simp
      from finish_steps_field [OF this] tr3 True show ?thesis by simp
    next
      case ng: False
      show ?thesis
      proof (cases "relax_all grid rows cols goal (popped_cell s) DIRS ?s3")
        case (Inl e)
        then have "astar_loop grid rows cols start goal rs s = Some (Inl e)"
          using ne nc ng by (subst astar_loop_unfold) simp
        with res show ?thesis by simp
      next
        case (Inr s4)
        with ne nc ng have nx: "astar_next grid rows cols goal rs s = Some s4"
          by (simp add: astar_next_def)
        from relax_all_frame [OF Inr] have "steps s4 = steps ?s3" by simp
        with tr3 have tr4: "\<forall>sn \<in> set (steps s4). expanded_least goal sn" by simp
        have res4: "astar_loop grid rows cols start goal rs s4 = Some (Inr (Some r))"
          using astar_loop_next [OF nx, of start] res by simp
        from step.IH [OF nx heap_inv_next [OF inv nx] tr4 res4] show ?thesis .
      qed
    qed
  qed
qed

lemma astar_trace:
  assumes "astar grid start goal rs = Some (Inr (Some r))"
  shows "\<forall>sn \<in> set (res_steps r). expanded_least goal sn"
proof (cases "grid_dims grid")
  case (Inl e)
  with assms show ?thesis by (simp add: astar_def)
next
  case (Inr d)
  obtain rows cols where d: "d = (rows, cols)" by (cases d)
  with Inr assms have a: "astar_loop grid rows cols start goal rs (astar_init start goal) =
      Some (Inr (Some r))" by (simp add: astar_def)
  have b: "\<forall>sn \<in> set (steps (astar_init start goal)). expanded_least goal sn"
    by (simp add: astar_init_def)
  from astar_loop_trace [OF heap_inv_init b a] show ?thesis .
qed

section \<open>Evaluation on concrete grids\<close>

lemmas astar_eval =
  astar_def grid_dims_def py_index_def astar_init_def heappush_def heappop_def
  astar_loop.simps reconstruct.simps DIRS_def relax_def grid_get_def
  TILE_WALL_def COSTS_get_def TILE_NORMAL_def TILE_MUD_def manhattan_def Let_def

lemmas iter_eval =
  astar_iter.simps astar_next_def popped_cell_def pop_heap_def close_cell_def
  grid_dims_def py_index_def astar_init_def heappush_def heappop_def
  DIRS_def relax_def grid_get_def
  TILE_WALL_def COSTS_get_def TILE_NORMAL_def TILE_MUD_def manhattan_def Let_def

lemmas grid_eval = is_wall_def passable_def in_bounds_def tile_at_def TILE_WALL_def

declare place_loop.simps [code]
declare random_empty_cell_loop.simps [code]
declare ensure_reachable_loop.simps [code]

lemma randrange_ok_demo: "randrange_ok demo_random"
  by (simp add: randrange_ok_def demo_random_def)

section \<open>Optimality\<close>

text \<open>
  Claim C1: on a rectangular grid, whenever some valid path (4-directional, through
  in-bounds non-Wall cells only) leads from \<open>start\<close> to \<open>goal\<close>, \<open>astar\<close> returns a path; the
  returned path is valid, and its cost (the sum of the costs of the tiles entered, the
  start tile excluded, Normal 1 and Mud 3) is not above the cost of any valid path from
  \<open>start\<close> to \<open>goal\<close>. The existence of a valid path already makes \<open>start\<close> and \<open>goal\<close>
  in-bounds non-Wall cells; the theorem holds for \<open>start = goal\<close> as well.
\<close>

theorem astar_optimal:
  assumes rect: "rectangular grid" and vq: "valid_path grid start goal q"
  shows "\<exists>res. astar grid start goal rs = Some (Inr (Some res)) \<and>
       valid_path grid start goal (res_path res) \<and>
       (\<forall>q'. valid_path grid start goal q' \<longrightarrow>
          path_cost grid (res_path res) \<le> path_cost grid q')"
proof -
  from vq have rq: "route grid start goal q" and ps: "passable grid start"
    by (simp_all add: valid_path_route)
  from solve_finds [OF rect rq, of rs] ps show ?thesis
    by (auto simp: valid_path_route)
qed

theorem astar_optimal_witness:
  "rectangular [''.~~.'', ''....''] \<and>
   valid_path [''.~~.'', ''....''] (0, 0) (0, 3) [(0, 0), (0, 1), (0, 2), (0, 3)] \<and>
   path_cost [''.~~.'', ''....''] [(0, 0), (0, 1), (0, 2), (0, 3)] = 7 \<and>
   astar [''.~~.'', ''....''] (0, 0) (0, 3) False =
     Some (Inr (Some \<lparr>res_path = [(0, 0), (1, 0), (1, 1), (1, 2), (1, 3), (0, 3)],
                      res_expanded = 7, res_steps = []\<rparr>)) \<and>
   valid_path [''.~~.'', ''....''] (0, 0) (0, 3) [(0, 0), (1, 0), (1, 1), (1, 2), (1, 3), (0, 3)] \<and>
   path_cost [''.~~.'', ''....''] [(0, 0), (1, 0), (1, 1), (1, 2), (1, 3), (0, 3)] \<le> 7"
proof -
  let ?g = "[''.~~.'', ''....'']"
  have r: "rectangular ?g" by (simp add: rectangular_def)
  have v: "valid_path ?g (0, 0) (0, 3) [(0, 0), (0, 1), (0, 2), (0, 3)]"
    by (simp add: valid_path_def adjacent_def grid_eval)
  have c: "path_cost ?g [(0, 0), (0, 1), (0, 2), (0, 3)] = 7"
    by (simp add: path_cost_def entry_cost_def tile_at_def COSTS_get_def TILE_NORMAL_def TILE_MUD_def)
  have h: "astar ?g (0, 0) (0, 3) False =
     Some (Inr (Some \<lparr>res_path = [(0, 0), (1, 0), (1, 1), (1, 2), (1, 3), (0, 3)],
                      res_expanded = 7, res_steps = []\<rparr>))"
    by (simp add: astar_eval)
  from astar_optimal [OF r v, of False] h v c
  have "valid_path ?g (0, 0) (0, 3) [(0, 0), (1, 0), (1, 1), (1, 2), (1, 3), (0, 3)] \<and>
    path_cost ?g [(0, 0), (1, 0), (1, 1), (1, 2), (1, 3), (0, 3)] \<le> 7"
    by auto
  with r v c h show ?thesis by blast
qed

section \<open>Placement of the endpoints\<close>

text \<open>
  Claim C2: whenever \<open>place_entities_on_grid\<close> returns a triple \<open>(grid', start, goal)\<close>, the
  two cells differ, the tile that \<open>grid'\<close> holds at each of them is not a Wall, and the
  breadth-first search \<open>ensure_reachable\<close> from \<open>start\<close> over the non-Wall cells of \<open>grid'\<close>
  with 4-directional adjacency returns \<open>True\<close> for \<open>goal\<close>; so a 4-directional route from
  \<open>start\<close> to \<open>goal\<close> that enters only in-bounds non-Wall cells exists. When \<open>randrange\<close>
  keeps its contract, both cells are in-bounds non-Wall cells and a valid path connects
  them.
\<close>

theorem placement_safe:
  assumes "place_entities_on_grid R rows cols wall_prob mud_prob seed max_place_tries rng =
      Some (Inr ((grid', start, goal), rng'))"
  shows "start \<noteq> goal \<and> non_wall grid' start \<and> non_wall grid' goal \<and>
     ensure_reachable grid' start goal = Some (Inr True) \<and>
     (\<exists>p. route grid' start goal p) \<and>
     (randrange_ok R \<longrightarrow>
        passable grid' start \<and> passable grid' goal \<and> (\<exists>p. valid_path grid' start goal p))"
proof -
  from assms have "place_loop R rows cols wall_prob mud_prob max_place_tries
      (fst (generate_grid R rows cols wall_prob mud_prob seed rng)) 0
      (snd (generate_grid R rows cols wall_prob mud_prob seed rng)) =
      Some (Inr ((grid', start, goal), rng'))"
    by (simp add: place_entities_on_grid_def split: prod.splits)
  from place_loop_result [OF this]
  have a: "start \<noteq> goal \<and> non_wall grid' start \<and> non_wall grid' goal \<and>
      ensure_reachable grid' start goal = Some (Inr True)"
    and b: "randrange_ok R \<longrightarrow> passable grid' start \<and> passable grid' goal"
    by blast+
  from a have "\<exists>p. route grid' start goal p" by (simp add: ensure_reachable_sound)
  with a b show ?thesis by (auto simp: valid_path_route)
qed

theorem placement_safe_witness:
  "place_entities_on_grid demo_random 1 2 0 0 None 300 0 =
     Some (Inr (([''..''], (0, 0), (0, 1)), 8)) \<and>
   (0, 0) \<noteq> ((0, 1) :: cell) \<and> non_wall [''..''] (0, 0) \<and> non_wall [''..''] (0, 1) \<and>
   ensure_reachable [''..''] (0, 0) (0, 1) = Some (Inr True) \<and>
   randrange_ok demo_random \<and> passable [''..''] (0, 0) \<and> passable [''..''] (0, 1) \<and>
   (\<exists>p. valid_path [''..''] (0, 0) (0, 1) p)"
proof -
  have h: "place_entities_on_grid demo_random 1 2 0 0 None 300 0 =
     Some (Inr (([''..''], (0, 0), (0, 1)), 8))"
    by code_simp
  from placement_safe [OF h] randrange_ok_demo h show ?thesis by blast
qed

section \<open>Endpoints that are not valid\<close>

text \<open>
  Claim C3, as stated: for a start or goal outside the grid or on a Wall cell, \<open>astar\<close>
  fails with an InvalidEndpoint error instead of running the search. It does not:
  \<open>astar\<close> has no check of its endpoints and no such error. With the goal on a Wall
  cell, and with the start outside the grid, the search runs and returns not-found.
\<close>

theorem astar_invalid_goal_counterexample:
  "is_wall [''.#''] (0, 1) \<and> astar [''.#''] (0, 0) (0, 1) False = Some (Inr None) \<and>
   \<not> in_bounds [''.''] (5, 5) \<and> astar [''.''] (5, 5) (0, 0) False = Some (Inr None)"
  by (simp add: astar_eval grid_eval)

text \<open>
  Claim C3, amended: \<open>astar\<close> does not validate its endpoints and never fails because of
  them. On every rectangular grid, for every start and goal, it runs the search and
  returns either a path or the not-found result, without raising; when \<open>start = goal\<close>
  it returns the one-cell path \<open>[start]\<close>, wherever that cell lies; when the goal differs
  from the start and is outside the grid or on a Wall cell it returns not-found.
\<close>

theorem astar_no_endpoint_check:
  assumes rect: "rectangular grid"
  shows "(\<exists>r. astar grid start goal rs = Some (Inr r)) \<and>
     (start = goal \<longrightarrow>
        (\<exists>res. astar grid start goal rs = Some (Inr (Some res)) \<and> res_path res = [start])) \<and>
     (start \<noteq> goal \<and> \<not> passable grid goal \<longrightarrow> astar grid start goal rs = Some (Inr None))"
proof (intro conjI impI)
  show "\<exists>r. astar grid start goal rs = Some (Inr r)"
  proof (cases "\<exists>q. route grid start goal q")
    case True
    then obtain q where "route grid start goal q" by blast
    from solve_finds [OF rect this, of rs] show ?thesis by blast
  next
    case False
    then have "\<And>q. \<not> route grid start goal q" by blast
    from solve_exhausts [OF rect this, of rs] show ?thesis by blast
  qed
next
  assume sg: "start = goal"
  have r0: "route grid start goal [start]" using sg by (simp add: route_single)
  from solve_finds [OF rect r0, of rs] obtain res where
    a: "astar grid start goal rs = Some (Inr (Some res))"
    and rt: "route grid start goal (res_path res)"
    and le: "path_cost grid (res_path res) \<le> path_cost grid [start]"
    using r0 by blast
  from le path_cost_lower [of "res_path res" grid]
  have "int (length (tl (res_path res))) \<le> 0"
    unfolding path_cost_single by linarith
  then have "tl (res_path res) = []" by (simp del: length_tl)
  with rt have "res_path res = [start]" by (cases "res_path res") (auto simp: route_def)
  with a show "\<exists>res. astar grid start goal rs = Some (Inr (Some res)) \<and> res_path res = [start]"
    by blast
next
  assume a: "start \<noteq> goal \<and> \<not> passable grid goal"
  then have "\<And>q. \<not> route grid start goal q" using route_goal_passable by blast
  with rect show "astar grid start goal rs = Some (Inr None)" by (rule solve_exhausts)
qed

theorem astar_no_endpoint_check_witness:
  "rectangular [''.#''] \<and> (0, 0) \<noteq> ((0, 1) :: cell) \<and> \<not> passable [''.#''] (0, 1) \<and>
   astar [''.#''] (0, 0) (0, 1) True = Some (Inr None) \<and>
   (\<exists>res. astar [''.#''] (0, 1) (0, 1) True = Some (Inr (Some res)) \<and> res_path res = [(0, 1)])"
proof -
  have r: "rectangular [''.#'']" by (simp add: rectangular_def)
  have n: "(0, 0) \<noteq> ((0, 1) :: cell)" by simp
  have p: "\<not> passable [''.#''] (0, 1)" by (simp add: grid_eval)
  from astar_no_endpoint_check [OF r, of "(0, 0)" "(0, 1)" True] n p
  have a: "astar [''.#''] (0, 0) (0, 1) True = Some (Inr None)" by blast
  from astar_no_endpoint_check [OF r, of "(0, 1)" "(0, 1)" True]
  have b: "\<exists>res. astar [''.#''] (0, 1) (0, 1) True = Some (Inr (Some res)) \<and> res_path res = [(0, 1)]"
    by blast
  from r n p a b show ?thesis by blast
qed

section \<open>Configurations that are not valid\<close>

text \<open>
  Claim C4, as stated: with non-positive \<open>rows\<close> or \<open>cols\<close>, or a probability outside
  \<open>[0, 1]\<close>, grid generation fails with an InvalidConfiguration error before any grid
  is built. It does not: \<open>generate_grid\<close> checks nothing and has no failure. With zero
  rows it returns the empty grid and draws nothing; with \<open>wall_prob = 2\<close> and
  \<open>mud_prob = -1\<close> it returns a grid of Walls.
\<close>

theorem generate_grid_unchecked_counterexample:
  "generate_grid demo_random 0 3 (1 / 2) (1 / 2) None 5 = ([], 5) \<and>
   generate_grid demo_random 1 2 2 (- 1) None 0 = ([''##''], 2)"
  by code_simp

text \<open>
  Claim C4, amended: \<open>generate_grid\<close> does not validate its configuration and never
  fails. For all \<open>rows\<close>, \<open>cols\<close> and probabilities it returns a grid of \<open>max(rows, 0)\<close>
  rows of \<open>max(cols, 0)\<close> tiles, each Normal, Wall or Mud: the empty grid for non-positive
  \<open>rows\<close>, rows that are empty lists for non-positive \<open>cols\<close>; probabilities outside
  \<open>[0, 1]\<close> are compared with the draws as they are.
\<close>

theorem generate_grid_total:
  "length (fst (generate_grid R rows cols wall_prob mud_prob seed rng)) = nat rows \<and>
   (\<forall>row \<in> set (fst (generate_grid R rows cols wall_prob mud_prob seed rng)).
      length row = nat cols \<and> (\<forall>t \<in> set row. t \<in> {TILE_NORMAL, TILE_WALL, TILE_MUD})) \<and>
   (rows \<le> 0 \<longrightarrow> fst (generate_grid R rows cols wall_prob mud_prob seed rng) = []) \<and>
   (cols \<le> 0 \<longrightarrow>
      fst (generate_grid R rows cols wall_prob mud_prob seed rng) = replicate (nat rows) [])"
proof -
  let ?g = "fst (generate_grid R rows cols wall_prob mud_prob seed rng)"
  note s = generate_grid_spec [of R rows cols wall_prob mud_prob seed rng]
  have 1: "length ?g = nat rows" using s by blast
  have 2: "\<forall>row \<in> set ?g. length row = nat cols \<and>
      (\<forall>t \<in> set row. t \<in> {TILE_NORMAL, TILE_WALL, TILE_MUD})"
    using s generate_grid_kind [of _ R rows cols wall_prob mud_prob seed rng] by blast
  have 3: "rows \<le> 0 \<longrightarrow> ?g = []" using 1 by auto
  have 4: "cols \<le> 0 \<longrightarrow> ?g = replicate (nat rows) []"
  proof
    assume "cols \<le> 0"
    with 2 have "\<forall>row \<in> set ?g. row = []" by simp
    then have "?g = replicate (length ?g) []"
      by (metis replicate_length_same)
    with 1 show "?g = replicate (nat rows) []" by simp
  qed
  from 1 2 3 4 show ?thesis by blast
qed

theorem generate_grid_total_witness:
  "fst (generate_grid demo_random (- 1) 3 (3 / 2) (1 / 2) None 5) = [] \<and>
   fst (generate_grid demo_random 2 0 (3 / 2) (1 / 2) None 5) = [[], []]"
proof -
  from generate_grid_total [of demo_random "- 1" 3 "3 / 2" "1 / 2" None 5]
  have a: "fst (generate_grid demo_random (- 1) 3 (3 / 2) (1 / 2) None 5) = []" by simp
  from generate_grid_total [of demo_random 2 0 "3 / 2" "1 / 2" None 5]
  have b: "fst (generate_grid demo_random 2 0 (3 / 2) (1 / 2) None 5) = [[], []]"
    by (simp add: numeral_2_eq_2)
  from a b show ?thesis by simp
qed

section \<open>Shape of a returned path\<close>

text \<open>
  Claim C5, as stated: whenever \<open>astar\<close> returns a path, the path starts at \<open>start\<close>, ends
  at \<open>goal\<close>, moves between 4-directionally adjacent cells and contains no Wall cell.
  The last part fails: \<open>astar\<close> never looks at the tile under \<open>start\<close>, so a path that
  starts on a Wall cell is returned with that Wall cell as its first element.
\<close>

theorem astar_wall_start_counterexample:
  "astar [''#.''] (0, 0) (0, 1) False =
     Some (Inr (Some \<lparr>res_path = [(0, 0), (0, 1)], res_expanded = 2, res_steps = []\<rparr>)) \<and>
   is_wall [''#.''] (0, 0)"
  by (simp add: astar_eval is_wall_def in_bounds_def tile_at_def)

text \<open>
  Claim C5, amended: whenever \<open>astar\<close> returns a path, the path is not empty, its first
  element is \<open>start\<close>, its last element is \<open>goal\<close>, consecutive cells differ by one step in
  exactly one coordinate, and every cell after the first is inside the grid and not a
  Wall cell; so no cell of the path is a Wall cell unless \<open>start\<close> itself is one.
\<close>

theorem astar_path_shape:
  assumes "astar grid start goal rs = Some (Inr (Some r))"
  shows "res_path r \<noteq> [] \<and> hd (res_path r) = start \<and> last (res_path r) = goal \<and>
     steps_adjacent (res_path r) \<and>
     (\<forall>c \<in> set (tl (res_path r)). passable grid c) \<and>
     (\<not> is_wall grid start \<longrightarrow> (\<forall>c \<in> set (res_path r). \<not> is_wall grid c))"
proof -
  from astar_returns [of grid start goal rs] assms
  have rt: "route grid start goal (res_path r)" by auto
  then have "set (res_path r) = insert start (set (tl (res_path r)))"
    by (cases "res_path r") (auto simp: route_def)
  with rt show ?thesis
    by (auto simp: route_def passable_def is_wall_def)
qed

theorem astar_path_shape_witness:
  "astar [''..''] (0, 0) (0, 1) False =
     Some (Inr (Some \<lparr>res_path = [(0, 0), (0, 1)], res_expanded = 2, res_steps = []\<rparr>)) \<and>
   steps_adjacent [(0, 0), (0, 1)] \<and> passable [''..''] (0, 1) \<and> \<not> is_wall [''..''] (0, 0)"
proof -
  have h: "astar [''..''] (0, 0) (0, 1) False =
     Some (Inr (Some \<lparr>res_path = [(0, 0), (0, 1)], res_expanded = 2, res_steps = []\<rparr>))"
    by (simp add: astar_eval)
  from astar_path_shape [OF h] show ?thesis
    using h by (simp add: grid_eval)
qed

section \<open>Generated grids\<close>

text \<open>
  Claim C6: for positive \<open>rows\<close> and \<open>cols\<close>, \<open>generate_grid\<close> returns a grid of \<open>rows\<close> rows
  of \<open>cols\<close> tiles, each tile one of Normal, Wall and Mud; read in row-major order the
  tiles are those that the rule of the specification determines one after the other
  from the random stream (after reseeding, when a seed is given): a first draw below
  \<open>wall_prob\<close> makes a Wall, otherwise a second draw below \<open>mud_prob\<close> makes Mud, else
  Normal, the second draw being made only when the first is not below \<open>wall_prob\<close>; the
  stream is left where the rule leaves it. That the draws are uniform and independent
  is the contract of the generator, which is a parameter here.
\<close>

theorem generate_grid_correct:
  assumes "0 < rows" "0 < cols"
  shows "length (fst (generate_grid R rows cols wall_prob mud_prob seed rng)) = nat rows \<and>
     (\<forall>row \<in> set (fst (generate_grid R rows cols wall_prob mud_prob seed rng)).
        length row = nat cols \<and> (\<forall>t \<in> set row. t \<in> {TILE_NORMAL, TILE_WALL, TILE_MUD})) \<and>
     concat (fst (generate_grid R rows cols wall_prob mud_prob seed rng)) =
       fst (spec_tiles R wall_prob mud_prob (nat rows * nat cols)
              (case seed of None \<Rightarrow> rng | Some n \<Rightarrow> seed_fn R n)) \<and>
     snd (generate_grid R rows cols wall_prob mud_prob seed rng) =
       snd (spec_tiles R wall_prob mud_prob (nat rows * nat cols)
              (case seed of None \<Rightarrow> rng | Some n \<Rightarrow> seed_fn R n))"
  using generate_grid_spec [of R rows cols wall_prob mud_prob seed rng]
    generate_grid_kind [of _ R rows cols wall_prob mud_prob seed rng]
  by blast

theorem generate_grid_correct_witness:
  "(0 :: int) < 2 \<and>
   spec_tiles demo_random (1 / 10) (3 / 10) 4 0 = (''#.~.'', 7) \<and>
   generate_grid demo_random 2 2 (1 / 10) (3 / 10) None 0 = ([''#.'', ''~.''], 7) \<and>
   concat (fst (generate_grid demo_random 2 2 (1 / 10) (3 / 10) None 0)) = ''#.~.'' \<and>
   length (fst (generate_grid demo_random 2 2 (1 / 10) (3 / 10) None 0)) = 2"
proof -
  have p: "(0 :: int) < 2" by simp
  have s: "spec_tiles demo_random (1 / 10) (3 / 10) 4 0 = (''#.~.'', 7)"
    by code_simp
  have g: "generate_grid demo_random 2 2 (1 / 10) (3 / 10) None 0 = ([''#.'', ''~.''], 7)"
    by code_simp
  have n: "nat 2 * nat 2 = (4 :: nat)" by simp
  from generate_grid_correct [OF p p, of demo_random "1 / 10" "3 / 10" None 0] s n
  have "concat (fst (generate_grid demo_random 2 2 (1 / 10) (3 / 10) None 0)) = ''#.~.'' \<and>
    length (fst (generate_grid demo_random 2 2 (1 / 10) (3 / 10) None 0)) = 2"
    by simp
  with p s g show ?thesis by simp
qed

section \<open>Order of the pops\<close>

text \<open>
  Claim C7: in \<open>astar\<close> the open heap is ordered by the key \<open>(f, g)\<close>, compared
  lexicographically, at every pop of every solve call. Let \<open>s\<close> be a state that the loop of
  \<open>astar\<close> reaches at the head of an iteration with a non-empty heap, and \<open>(f, g, c)\<close> the
  entry that \<open>heappop\<close> returns there. Then the solve call is the loop continued from \<open>s\<close>, and
  the loop at \<open>s\<close> handles exactly that entry: it skips \<open>c\<close> when closed, finishes when
  \<open>c\<close> is the goal, and otherwise closes \<open>c\<close>, relaxes its neighbours and goes on. Every
  entry of the heap has \<open>f = g + manhattan c goal\<close>, and the popped one has the smallest
  \<open>f\<close> and, among the entries with that \<open>f\<close>, the smallest \<open>g\<close>; one occurrence of it leaves
  the heap. When \<open>c\<close> is not closed, \<open>g\<close> is its best known cost, and every cell \<open>v\<close> that
  is known and not closed has a best known cost \<open>gv\<close> whose key \<open>(gv + manhattan v goal, gv)\<close>
  is not below \<open>(f, g)\<close>. Finally, in the result of a solve call that finds a path, every
  recorded step expands a cell whose key, by the costs recorded in that step, is the least
  among the known cells not yet closed.
\<close>

theorem pop_order:
  assumes dims: "grid_dims grid = Inr (rows, cols)"
    and run: "astar_iter grid rows cols goal rs n (astar_init start goal) = Some s"
    and ne: "open_heap s \<noteq> []"
    and pop: "heappop (open_heap s) = ((f, g, c), h')"
  shows "astar grid start goal rs = astar_loop grid rows cols start goal rs s \<and>
     astar_loop grid rows cols start goal rs s =
       (if c \<in> closed_set s
        then astar_loop grid rows cols start goal rs (s\<lparr>open_heap := h'\<rparr>)
        else if c = goal
        then finish start goal (close_cell rs c (s\<lparr>open_heap := h'\<rparr>))
        else
          (case relax_all grid rows cols goal c DIRS (close_cell rs c (s\<lparr>open_heap := h'\<rparr>)) of
             Inl e \<Rightarrow> Some (Inl e)
           | Inr s4 \<Rightarrow> astar_loop grid rows cols start goal rs s4)) \<and>
     (f, g, c) \<in> set (open_heap s) \<and> popped_cell s = c \<and>
     f = g + manhattan c goal \<and>
     (\<forall>e \<in> set (open_heap s).
        fst e = fst (snd e) + manhattan (snd (snd e)) goal \<and>
        (f < fst e \<or> (f = fst e \<and> g \<le> fst (snd e)))) \<and>
     (c \<notin> closed_set s \<longrightarrow> g_score s c = Some g) \<and>
     (\<forall>v gv. g_score s v = Some gv \<and> v \<notin> closed_set s \<longrightarrow>
        f < gv + manhattan v goal \<or> (f = gv + manhattan v goal \<and> g \<le> gv)) \<and>
     length h' + 1 = length (open_heap s) \<and>
     set (open_heap s) = insert (f, g, c) (set h') \<and>
     (\<forall>r. astar grid start goal rs = Some (Inr (Some r)) \<longrightarrow>
        (\<forall>sn \<in> set (res_steps r). expanded_least goal sn))"
proof -
  have kinv: "keys_inv goal s"
    using keys_inv_init run by (rule astar_iter_keys_inv)
  have hinv: "heap_inv goal s"
    using heap_inv_init run by (rule astar_iter_heap_inv)
  have pc: "popped_cell s = c" using pop by (simp add: popped_cell_def)
  have ph: "pop_heap s = s\<lparr>open_heap := h'\<rparr>" using pop by (simp add: pop_heap_def)
  have 1: "astar grid start goal rs = astar_loop grid rows cols start goal rs s"
    using dims astar_loop_iter [OF run, of start] by (simp add: astar_def)
  have 2: "astar_loop grid rows cols start goal rs s =
       (if c \<in> closed_set s
        then astar_loop grid rows cols start goal rs (s\<lparr>open_heap := h'\<rparr>)
        else if c = goal
        then finish start goal (close_cell rs c (s\<lparr>open_heap := h'\<rparr>))
        else
          (case relax_all grid rows cols goal c DIRS (close_cell rs c (s\<lparr>open_heap := h'\<rparr>)) of
             Inl e \<Rightarrow> Some (Inl e)
           | Inr s4 \<Rightarrow> astar_loop grid rows cols start goal rs s4))"
    using ne by (subst astar_loop_unfold) (simp add: pc ph)
  have m: "(f, g, c) \<in> set (open_heap s)"
    using heappop_fst_in [OF ne] pop by simp
  have le: "(f, g, c) \<le> e" if "e \<in> set (open_heap s)" for e
    using heappop_fst_le [OF that] pop by simp
  have ord: "f < fst e \<or> (f = fst e \<and> g \<le> fst (snd e))" if "e \<in> set (open_heap s)" for e
    using le [OF that] by (cases e) (auto simp: less_eq_prod_def)
  have 3: "\<forall>e \<in> set (open_heap s).
        fst e = fst (snd e) + manhattan (snd (snd e)) goal \<and>
        (f < fst e \<or> (f = fst e \<and> g \<le> fst (snd e)))"
    using kinv ord by (auto simp: keys_inv_def)
  note L = pop_least [OF hinv ne pop]
  have 4: "c \<notin> closed_set s \<longrightarrow> g_score s c = Some g" using L(2) by blast
  have 5: "\<forall>v gv. g_score s v = Some gv \<and> v \<notin> closed_set s \<longrightarrow>
        f < gv + manhattan v goal \<or> (f = gv + manhattan v goal \<and> g \<le> gv)"
    using L(3) by blast
  have h': "h' = remove1 (f, g, c) (open_heap s)"
    using pop by (auto simp: heappop_def Let_def)
  have len: "length h' + 1 = length (open_heap s)"
    using m ne by (simp add: h' length_remove1)
  have sub: "set h' \<subseteq> set (open_heap s)"
    using heappop_set_subset [of "open_heap s"] pop by simp
  have oth: "x \<in> set h'" if "x \<in> set (open_heap s)" "x \<noteq> (f, g, c)" for x
    using heappop_set_other [of x "open_heap s"] that pop by simp
  have st: "set (open_heap s) = insert (f, g, c) (set h')"
    using m sub oth by blast
  have 6: "\<forall>r. astar grid start goal rs = Some (Inr (Some r)) \<longrightarrow>
        (\<forall>sn \<in> set (res_steps r). expanded_least goal sn)"
    using astar_trace by blast
  from 1 2 m pc L(1) 3 4 5 len st 6 show ?thesis by blast
qed

theorem pop_order_witness:
  "grid_dims [''..~'', ''...''] = Inr (2, 3) \<and>
   (\<exists>s. astar_iter [''..~'', ''...''] 2 3 (0, 2) True (Suc (Suc 0)) (astar_init (0, 0) (0, 2)) = Some s \<and>
        open_heap s = [(4, 1, (1, 0)), (4, 2, (1, 1)), (4, 4, (0, 2))] \<and>
        heappop (open_heap s) = ((4, 1, (1, 0)), [(4, 2, (1, 1)), (4, 4, (0, 2))]) \<and>
        popped_cell s = (1, 0) \<and> (1, 0) \<notin> closed_set s \<and> g_score s (1, 0) = Some 1 \<and>
        astar [''..~'', ''...''] (0, 0) (0, 2) True =
          astar_loop [''..~'', ''...''] 2 3 (0, 0) (0, 2) True s) \<and>
   (\<exists>r. astar [''..~'', ''...''] (0, 0) (0, 2) True = Some (Inr (Some r)) \<and>
        res_path r = [(0, 0), (0, 1), (0, 2)] \<and>
        map snap_current (res_steps r) = [(0, 0), (0, 1), (1, 0), (1, 1), (1, 2), (0, 2)] \<and>
        (\<forall>sn \<in> set (res_steps r). expanded_least (0, 2) sn))"
proof -
  have d: "grid_dims [''..~'', ''...''] = Inr (2, 3)" by (simp add: grid_dims_def py_index_def)
  obtain s where run: "astar_iter [''..~'', ''...''] 2 3 (0, 2) True (Suc (Suc 0))
        (astar_init (0, 0) (0, 2)) = Some s"
    and hp: "open_heap s = [(4, 1, (1, 0)), (4, 2, (1, 1)), (4, 4, (0, 2))]"
    and nc: "(1, 0) \<notin> closed_set s"
    by (simp add: iter_eval)
  have pop: "heappop (open_heap s) = ((4, 1, (1, 0)), [(4, 2, (1, 1)), (4, 4, (0, 2))])"
    by (simp add: hp heappop_def)
  have ne: "open_heap s \<noteq> []" by (simp add: hp)
  obtain r where a: "astar [''..~'', ''...''] (0, 0) (0, 2) True = Some (Inr (Some r))"
    and p: "res_path r = [(0, 0), (0, 1), (0, 2)]"
    and m: "map snap_current (res_steps r) = [(0, 0), (0, 1), (1, 0), (1, 1), (1, 2), (0, 2)]"
    by (simp add: astar_eval)
  note P = pop_order [OF d run ne pop]
  from P have 1: "popped_cell s = (1, 0)" by blast
  from P nc have 2: "g_score s (1, 0) = Some 1" by blast
  from P have 3: "astar [''..~'', ''...''] (0, 0) (0, 2) True =
          astar_loop [''..~'', ''...''] 2 3 (0, 0) (0, 2) True s" by blast
  from P a have 4: "\<forall>sn \<in> set (res_steps r). expanded_least (0, 2) sn" by blast
  have A: "\<exists>s. astar_iter [''..~'', ''...''] 2 3 (0, 2) True (Suc (Suc 0)) (astar_init (0, 0) (0, 2)) = Some s \<and>
        open_heap s = [(4, 1, (1, 0)), (4, 2, (1, 1)), (4, 4, (0, 2))] \<and>
        heappop (open_heap s) = ((4, 1, (1, 0)), [(4, 2, (1, 1)), (4, 4, (0, 2))]) \<and>
        popped_cell s = (1, 0) \<and> (1, 0) \<notin> closed_set s \<and> g_score s (1, 0) = Some 1 \<and>
        astar [''..~'', ''...''] (0, 0) (0, 2) True =
          astar_loop [''..~'', ''...''] 2 3 (0, 0) (0, 2) True s"
    by (rule exI [of _ s]) (intro conjI run hp pop nc 1 2 3)
  have B: "\<exists>r. astar [''..~'', ''...''] (0, 0) (0, 2) True = Some (Inr (Some r)) \<and>
        res_path r = [(0, 0), (0, 1), (0, 2)] \<and>
        map snap_current (res_steps r) = [(0, 0), (0, 1), (1, 0), (1, 1), (1, 2), (0, 2)] \<and>
        (\<forall>sn \<in> set (res_steps r). expanded_least (0, 2) sn)"
    by (rule exI [of _ r]) (intro conjI a p m 4)
  show ?thesis by (intro conjI d A B)
qed

section \<open>The not-found result\<close>

text \<open>
  Claim C8: on a rectangular grid (the grid of the data model), for in-bounds non-Wall
  cells \<open>start\<close> and \<open>goal\<close>: when no valid path connects them, \<open>astar\<close> returns Python's
  \<open>None\<close>, the not-found result, and raises nothing; when a valid path connects them,
  \<open>astar\<close> returns a result with a path, not the not-found result.
\<close>

theorem astar_not_found_iff:
  assumes rect: "rectangular grid"
    and ps: "passable grid start" and pg: "passable grid goal"
  shows "((\<nexists>p. valid_path grid start goal p) \<longrightarrow> astar grid start goal rs = Some (Inr None)) \<and>
     ((\<exists>p. valid_path grid start goal p) \<longrightarrow>
        (\<exists>res. astar grid start goal rs = Some (Inr (Some res))))"
proof (intro conjI impI)
  assume "\<nexists>p. valid_path grid start goal p"
  with ps have "\<And>q. \<not> route grid start goal q" by (simp add: valid_path_route)
  with rect show "astar grid start goal rs = Some (Inr None)" by (rule solve_exhausts)
next
  assume "\<exists>p. valid_path grid start goal p"
  then obtain p where "route grid start goal p" by (auto simp: valid_path_route)
  from solve_finds [OF rect this, of rs]
  show "\<exists>res. astar grid start goal rs = Some (Inr (Some res))" by blast
qed

theorem astar_not_found_iff_witness:
  "rectangular [''.#.''] \<and> passable [''.#.''] (0, 0) \<and> passable [''.#.''] (0, 2) \<and>
   astar [''.#.''] (0, 0) (0, 2) False = Some (Inr None) \<and>
   (\<nexists>p. valid_path [''.#.''] (0, 0) (0, 2) p) \<and>
   rectangular [''...''] \<and> passable [''...''] (0, 0) \<and> passable [''...''] (0, 2) \<and>
   valid_path [''...''] (0, 0) (0, 2) [(0, 0), (0, 1), (0, 2)] \<and>
   (\<exists>res. astar [''...''] (0, 0) (0, 2) False = Some (Inr (Some res)))"
proof -
  have r1: "rectangular [''.#.'']" and r2: "rectangular [''...'']"
    by (simp_all add: rectangular_def)
  have p1: "passable [''.#.''] (0, 0)" "passable [''.#.''] (0, 2)"
    and p2: "passable [''...''] (0, 0)" "passable [''...''] (0, 2)"
    by (simp_all add: grid_eval)
  have h: "astar [''.#.''] (0, 0) (0, 2) False = Some (Inr None)"
    by (simp add: astar_eval)
  have v: "valid_path [''...''] (0, 0) (0, 2) [(0, 0), (0, 1), (0, 2)]"
    by (simp add: valid_path_def adjacent_def grid_eval)
  from astar_not_found_iff [OF r1 p1, of False] h
  have n: "\<nexists>p. valid_path [''.#.''] (0, 0) (0, 2) p" by auto
  from astar_not_found_iff [OF r2 p2, of False] v
  have e: "\<exists>res. astar [''...''] (0, 0) (0, 2) False = Some (Inr (Some res))" by blast
  from r1 r2 p1 p2 h v n e show ?thesis by blast
qed

section \<open>The trace flag\<close>

text \<open>
  Claim C9: \<open>astar\<close> with \<open>record_steps=True\<close> and with \<open>record_steps=False\<close> return the same
  path and the same number of expanded cells (and fail or find nothing alike); the flag
  only changes the recorded steps.
\<close>

theorem record_steps_irrelevant:
  "outcome (astar grid start goal True) = outcome (astar grid start goal False)"
proof (cases "grid_dims grid")
  case (Inl e)
  then show ?thesis by (simp add: astar_def)
next
  case (Inr d)
  obtain rows cols where d: "d = (rows, cols)" by (cases d)
  have "astar_init start goal = (astar_init start goal)\<lparr>steps := []\<rparr>"
    by (simp add: astar_init_def)
  with astar_loop_steps [where grid = grid and rows = rows and cols = cols and start = start
      and goal = goal and rs' = True and rs = False and s = "astar_init start goal" and x = "[]"]
  show ?thesis using Inr d by (simp add: astar_def)
qed

theorem record_steps_irrelevant_witness:
  "outcome (astar [''..''] (0, 0) (0, 1) True) = Some (Inr (Some ([(0, 0), (0, 1)], 2)))"
proof -
  have "outcome (astar [''..''] (0, 0) (0, 1) False) = Some (Inr (Some ([(0, 0), (0, 1)], 2)))"
    by (simp add: astar_eval outcome_def)
  with record_steps_irrelevant [of "[''..'']" "(0, 0)" "(0, 1)"] show ?thesis by simp
qed

section \<open>Termination\<close>

text \<open>
  Claim C10: the main loop of \<open>astar\<close> terminates. The call always returns a value, and
  so does the loop from every state \<open>s\<close> that the run reaches after \<open>n\<close> iterations. In such
  a state every recorded cost is a nonnegative integer; an iteration that goes round
  again strictly decreases the pair (number of cells in the heap or inside the bounds
  that are not closed, size of the heap) in the lexicographic order; a pop of a closed
  cell is discarded (only the heap changes), and a pop of any other cell adds exactly
  that cell to the closed set; and a relaxation either changes nothing or pushes one
  entry for a cell whose recorded cost it strictly decreases.
\<close>

theorem astar_terminates:
  assumes dims: "grid_dims grid = Inr (rows, cols)"
    and run: "astar_iter grid rows cols goal rs n (astar_init start goal) = Some s"
  shows "(\<exists>r. astar grid start goal rs = Some r) \<and>
     (\<exists>r. astar_loop grid rows cols start goal rs s = Some r) \<and>
     (\<forall>v gv. g_score s v = Some gv \<longrightarrow> 0 \<le> gv) \<and>
     (\<forall>s'. astar_next grid rows cols goal rs s = Some s' \<longrightarrow>
        (loop_measure rows cols s', loop_measure rows cols s) \<in> less_than <*lex*> less_than \<and>
        (popped_cell s \<in> closed_set s \<longrightarrow> s' = pop_heap s) \<and>
        (popped_cell s \<notin> closed_set s \<longrightarrow>
           closed_set s' = insert (popped_cell s) (closed_set s))) \<and>
     (\<forall>cur d s'. relax grid rows cols goal cur d s = Inr s' \<longrightarrow>
        s' = s \<or>
        (\<exists>nb tg. open_heap s' = heappush (open_heap s) (tg + manhattan nb goal, tg, nb) \<and>
           g_score s' = (g_score s)(nb \<mapsto> tg) \<and>
           (\<forall>gn. g_score s nb = Some gn \<longrightarrow> tg < gn)))"
proof -
  have inv: "chain_inv grid start s"
    using chain_inv_init run by (rule astar_iter_chain_inv)
  have 1: "\<exists>r. astar grid start goal rs = Some r"
    using astar_returns [of grid start goal rs] by blast
  have 2: "\<exists>r. astar_loop grid rows cols start goal rs s = Some r"
    using astar_loop_returns [OF inv, of rows cols goal rs] by blast
  have 3: "\<forall>v gv. g_score s v = Some gv \<longrightarrow> 0 \<le> gv"
    using inv by (simp add: chain_inv_def)
  have 4: "\<forall>s'. astar_next grid rows cols goal rs s = Some s' \<longrightarrow>
        (loop_measure rows cols s', loop_measure rows cols s) \<in> less_than <*lex*> less_than \<and>
        (popped_cell s \<in> closed_set s \<longrightarrow> s' = pop_heap s) \<and>
        (popped_cell s \<notin> closed_set s \<longrightarrow>
           closed_set s' = insert (popped_cell s) (closed_set s))"
    using astar_next_decreases astar_next_closed by blast
  have 5: "\<forall>cur d s'. relax grid rows cols goal cur d s = Inr s' \<longrightarrow>
        s' = s \<or>
        (\<exists>nb tg. open_heap s' = heappush (open_heap s) (tg + manhattan nb goal, tg, nb) \<and>
           g_score s' = (g_score s)(nb \<mapsto> tg) \<and>
           (\<forall>gn. g_score s nb = Some gn \<longrightarrow> tg < gn))"
    using relax_push by blast
  from 1 2 3 4 5 show ?thesis by blast
qed

theorem astar_terminates_witness:
  "grid_dims [''..''] = Inr (1, 2) \<and>
   (\<exists>s. astar_iter [''..''] 1 2 (0, 1) False (Suc 0) (astar_init (0, 0) (0, 1)) = Some s \<and>
        g_score s (0, 1) = Some 1 \<and>
        (\<exists>r. astar_loop [''..''] 1 2 (0, 0) (0, 1) False s = Some r)) \<and>
   (\<exists>r. astar [''..''] (0, 0) (0, 1) False = Some r)"
proof -
  have d: "grid_dims [''..''] = Inr (1, 2)" by (simp add: grid_dims_def py_index_def)
  obtain s where run: "astar_iter [''..''] 1 2 (0, 1) False (Suc 0) (astar_init (0, 0) (0, 1)) = Some s"
    and g: "g_score s (0, 1) = Some 1"
    by (simp add: iter_eval)
  from astar_terminates [OF d run] d run g show ?thesis by blast
qed

end
